theory Spec2Isabelle
  imports Main
begin

section \<open>The parser of go-queryalternatives\<close>

text \<open>
  A shallow embedding of \<^verbatim>\<open>queryalternatives.go\<close>: the reader of key-value pairs
  (\<^verbatim>\<open>readKeyValue\<close>), the slave-list parser (\<^verbatim>\<open>parseSlaves\<close>) and the record
  assembler (\<^verbatim>\<open>Parse\<close>, \<^verbatim>\<open>ParseString\<close>). Go strings and byte slices are
  \<^typ>\<open>string\<close> (a list of 8-bit characters); a Go map or slice, which may be
  \<^verbatim>\<open>nil\<close>, is an \<^typ>\<open>'a option\<close> with \<^term>\<open>None\<close> for \<^verbatim>\<open>nil\<close>; a
  \<^verbatim>\<open>(result, error)\<close> pair is a sum with the error on the left. \<^verbatim>\<open>Query\<close>, which runs
  the external command and hands its output to \<^verbatim>\<open>Parse\<close>, is not modelled.
\<close>

subsection \<open>Bytes and the library functions the parser calls\<close>

abbreviation LF :: char where "LF \<equiv> CHR 0x0A"
abbreviation CR :: char where "CR \<equiv> CHR 0x0D"
abbreviation SP :: char where "SP \<equiv> CHR '' ''"

text \<open>\<^verbatim>\<open>bytes.TrimLeft(s, cutset)\<close> and \<^verbatim>\<open>bytes.TrimRight(s, cutset)\<close> for an ASCII
  cutset: every leading (trailing) byte that occurs in the cutset is removed.\<close>

definition TrimLeft :: "string \<Rightarrow> string \<Rightarrow> string" where
  "TrimLeft s cutset = dropWhile (\<lambda>c. c \<in> set cutset) s"

definition TrimRight :: "string \<Rightarrow> string \<Rightarrow> string" where
  "TrimRight s cutset = rev (dropWhile (\<lambda>c. c \<in> set cutset) (rev s))"

text \<open>\<^verbatim>\<open>bytes.SplitN(s, sep, 2)\<close> and \<^verbatim>\<open>strings.SplitN(s, sep, 2)\<close> for a separator of
  one byte: the text before and the text after the first separator, or the text alone
  when it holds no separator.\<close>

definition SplitN2 :: "string \<Rightarrow> char \<Rightarrow> string list" where
  "SplitN2 s sep =
     (if sep \<in> set s
      then [takeWhile (\<lambda>c. c \<noteq> sep) s, tl (dropWhile (\<lambda>c. c \<noteq> sep) s)]
      else [s])"

text \<open>\<^verbatim>\<open>strings.Split(s, sep)\<close> for a separator of one byte: all the pieces between
  separators; the empty string gives one empty piece. (The result is never the empty
  list, so the first branch of the inner case is never taken.)\<close>

fun Split :: "string \<Rightarrow> char \<Rightarrow> string list" where
  "Split [] sep = [[]]"
| "Split (c # cs) sep =
     (if c = sep then [] # Split cs sep
      else (case Split cs sep of [] \<Rightarrow> [[c]] | x # xs \<Rightarrow> (c # x) # xs))"

text \<open>\<^verbatim>\<open>strconv.Atoi\<close>: an optional sign, then one or more decimal digits and nothing
  else; the number must fit Go's \<^verbatim>\<open>int\<close>, taken here at its 64-bit size. Any error
  (syntax or range) is \<^term>\<open>None\<close>: the parser only tests \<^verbatim>\<open>err != nil\<close>.\<close>

definition isDigit :: "char \<Rightarrow> bool" where
  "isDigit c = (48 \<le> (of_char c :: nat) \<and> (of_char c :: nat) \<le> 57)"

definition digits_val :: "string \<Rightarrow> int" where
  "digits_val ds = foldl (\<lambda>n c. n * 10 + int (of_char c - 48)) 0 ds"

definition Atoi :: "string \<Rightarrow> int option" where
  "Atoi s =
     (let neg = (s \<noteq> [] \<and> hd s = CHR ''-'');
          ds = (if s \<noteq> [] \<and> (hd s = CHR ''-'' \<or> hd s = CHR ''+'') then tl s else s)
      in if ds = [] \<or> \<not> list_all isDigit ds then None
         else let n = (if neg then - digits_val ds else digits_val ds)
              in if - (2 ^ 63) \<le> n \<and> n \<le> 2 ^ 63 - 1 then Some n else None)"

subsection \<open>Errors, the buffered reader\<close>

text \<open>An \<^verbatim>\<open>error\<close> value: \<^verbatim>\<open>io.EOF\<close>, a \<^verbatim>\<open>*ParseError\<close> with its message and line,
  or any other error of the underlying stream.\<close>

datatype error = EOF | ReadFault | ParseError (Message: string) (Line: int)

text \<open>The \<^verbatim>\<open>bufio.Reader\<close> over its stream: the bytes not yet consumed, and the error
  the stream reports once they are used up (\<^verbatim>\<open>io.EOF\<close> for a string).\<close>

record Reader =
  unread :: string
  fin :: error

text \<open>\<^verbatim>\<open>ReadBytes(delim)\<close>: the bytes up to and including the first delimiter; when
  the stream ends first, the bytes left together with the stream's error.\<close>

definition ReadBytes :: "Reader \<Rightarrow> char \<Rightarrow> string \<times> error option \<times> Reader" where
  "ReadBytes rd delim =
     (case dropWhile (\<lambda>c. c \<noteq> delim) (unread rd) of
        [] \<Rightarrow> (unread rd, Some (fin rd), rd\<lparr>unread := []\<rparr>)
      | d # rest \<Rightarrow> (takeWhile (\<lambda>c. c \<noteq> delim) (unread rd) @ [d], None, rd\<lparr>unread := rest\<rparr>))"

text \<open>\<^verbatim>\<open>Peek(1)\<close>: the next byte, not consumed, or the stream's error.\<close>

definition Peek1 :: "Reader \<Rightarrow> error + char" where
  "Peek1 rd = (case unread rd of [] \<Rightarrow> Inl (fin rd) | c # _ \<Rightarrow> Inr c)"

subsection \<open>The data model\<close>

record Alternative =
  Path :: string
  Priority :: int
  Slaves :: "(string \<rightharpoonup> string) option"

record Alternatives =
  Name :: string
  Link :: string
  Slaves :: "(string \<rightharpoonup> string) option"
  Status :: string
  Best :: string
  Value :: string
  Alternatives :: "Alternative list option"

record Parser =
  R :: Reader
  lineNo :: int

text \<open>Go's \<^verbatim>\<open>append(s, x)\<close> on a slice that may be \<^verbatim>\<open>nil\<close>.\<close>

definition go_append :: "'a list option \<Rightarrow> 'a \<Rightarrow> 'a list option" where
  "go_append s x = (case s of None \<Rightarrow> Some [x] | Some xs \<Rightarrow> Some (xs @ [x]))"

definition newAlternative :: Alternative where
  "newAlternative = \<lparr>Path = [], Priority = 0, Alternative.Slaves = Some Map.empty\<rparr>"

definition newAlternatives :: Alternatives where
  "newAlternatives =
     \<lparr>Name = [], Link = [], Slaves = Some Map.empty, Status = [], Best = [], Value = [],
      Alternatives = Some []\<rparr>"

definition strings_NewReader :: "string \<Rightarrow> Reader" where
  "strings_NewReader s = \<lparr>unread = s, fin = EOF\<rparr>"

definition NewParser :: "Reader \<Rightarrow> Parser" where
  "NewParser rd = \<lparr>R = rd, lineNo = 0\<rparr>"

subsection \<open>readKeyValue\<close>

text \<open>The test both loops of \<^verbatim>\<open>readKeyValue\<close> make after \<^verbatim>\<open>ReadBytes\<close>: an error
  stops the loop, except \<^verbatim>\<open>io.EOF\<close> after a line that is not empty.\<close>

definition read_stops :: "error option \<Rightarrow> string \<Rightarrow> error option" where
  "read_stops err line =
     (case err of
        None \<Rightarrow> None
      | Some e \<Rightarrow> if e = EOF then (if line = [] then Some e else None) else Some e)"

text \<open>The first loop (lines 95 to 112): read lines, counting them, until one is not
  empty once its trailing CR and LF bytes are cut.\<close>

function readKeyValue_seek :: "Parser \<Rightarrow> error + (string \<times> Parser)" where
  "readKeyValue_seek r =
     (case ReadBytes (R r) LF of
        (raw, err, rd) \<Rightarrow>
          (case read_stops err (TrimRight raw [CR, LF]) of
             Some e \<Rightarrow> Inl e
           | None \<Rightarrow>
               if TrimRight raw [CR, LF] \<noteq> []
               then Inr (TrimRight raw [CR, LF], r\<lparr>R := rd, lineNo := lineNo r + 1\<rparr>)
               else readKeyValue_seek (r\<lparr>R := rd, lineNo := lineNo r + 1\<rparr>)))"
  by pat_completeness auto

lemma ReadBytes_found_shorter:
  "ReadBytes rd delim = (raw, None, rd') \<Longrightarrow> length (unread rd') < length (unread rd)"
proof -
  assume a: "ReadBytes rd delim = (raw, None, rd')"
  then obtain d where "dropWhile (\<lambda>c. c \<noteq> delim) (unread rd) = d # unread rd'"
    by (auto simp: ReadBytes_def split: list.splits)
  then have "Suc (length (unread rd')) = length (dropWhile (\<lambda>c. c \<noteq> delim) (unread rd))"
    by simp
  also have "\<dots> \<le> length (unread rd)"
    by (rule length_dropWhile_le)
  finally show ?thesis by simp
qed

lemma read_stops_None_empty: "read_stops err [] = None \<Longrightarrow> err = None"
  by (auto simp: read_stops_def split: option.splits if_splits)

termination readKeyValue_seek
proof (relation "measure (\<lambda>r. length (unread (R r)))", goal_cases)
  case 1
  show ?case by simp
next
  case 2
  then show ?case
    by (auto dest!: read_stops_None_empty dest: ReadBytes_found_shorter [OF sym])
qed

declare readKeyValue_seek.simps [simp del]

text \<open>The second loop (lines 126 to 155): while the next byte is a space, read the
  line, cut its leading spaces and trailing CR and LF bytes, and append it to the value
  after a newline (no newline when the value is still empty).\<close>

function readKeyValue_cont :: "string \<Rightarrow> Parser \<Rightarrow> error + (string \<times> Parser)" where
  "readKeyValue_cont val r =
     (case Peek1 (R r) of
        Inl e \<Rightarrow> if e = EOF then Inr (val, r) else Inl e
      | Inr next \<Rightarrow>
          if next \<noteq> SP then Inr (val, r)
          else
            (case ReadBytes (R r) LF of
               (raw, err, rd) \<Rightarrow>
                 (case read_stops err (TrimRight (TrimLeft raw [SP]) [CR, LF]) of
                    Some e \<Rightarrow> if e = EOF then Inr (val, r\<lparr>R := rd\<rparr>) else Inl e
                  | None \<Rightarrow>
                      readKeyValue_cont
                        ((if val \<noteq> [] then val @ [LF] else val)
                           @ TrimRight (TrimLeft raw [SP]) [CR, LF])
                        (r\<lparr>R := rd, lineNo := lineNo r + 1\<rparr>))))"
  by pat_completeness auto

lemma ReadBytes_nonempty_shorter:
  "unread rd \<noteq> [] \<Longrightarrow> ReadBytes rd delim = (raw, err, rd') \<Longrightarrow>
   length (unread rd') < length (unread rd)"
proof (cases err)
  case None
  assume "ReadBytes rd delim = (raw, err, rd')"
  with None show ?thesis
    by (auto dest: ReadBytes_found_shorter)
next
  case (Some e)
  assume "unread rd \<noteq> []" "ReadBytes rd delim = (raw, err, rd')"
  with Some show ?thesis
    by (auto simp: ReadBytes_def split: list.splits)
qed

termination readKeyValue_cont
proof (relation "measure (\<lambda>(v, r). length (unread (R r)))", goal_cases)
  case 1
  show ?case by simp
next
  case (2 v r c raw y err rd)
  from 2(1) have "unread (R r) \<noteq> []"
    by (auto simp: Peek1_def split: list.splits)
  moreover from 2(3,4) have "ReadBytes (R r) LF = (raw, err, rd)"
    by simp
  ultimately have "length (unread rd) < length (unread (R r))"
    by (rule ReadBytes_nonempty_shorter)
  then show ?case by simp
qed

declare readKeyValue_cont.simps [simp del]

text \<open>\<^verbatim>\<open>readKeyValue\<close>: the key line is split at its first colon; the value starts as
  the text after the colon without its leading spaces. On success the parser is returned
  as the call leaves it; on an error only the error is returned, since \<^verbatim>\<open>Parse\<close> returns
  at once and never reads the parser again.\<close>

definition readKeyValue :: "Parser \<Rightarrow> error + (string \<times> string \<times> Parser)" where
  "readKeyValue r =
     (case readKeyValue_seek r of
        Inl e \<Rightarrow> Inl e
      | Inr (line, r1) \<Rightarrow>
          (case SplitN2 line (CHR '':'') of
             [key, rest] \<Rightarrow>
               (case readKeyValue_cont (TrimRight (TrimLeft rest [SP]) [CR, LF]) r1 of
                  Inl e \<Rightarrow> Inl e
                | Inr (val, r2) \<Rightarrow> Inr (key, val, r2))
           | _ \<Rightarrow> Inl (ParseError ''malformed line'' (lineNo r1))))"

lemma readKeyValue_seek_shorter:
  "readKeyValue_seek r = Inr (line, r1) \<Longrightarrow> length (unread (R r1)) < length (unread (R r))"
proof (induction r rule: readKeyValue_seek.induct)
  case (1 r)
  obtain raw err rd where rb: "ReadBytes (R r) LF = (raw, err, rd)"
    by (cases "ReadBytes (R r) LF") auto
  show ?case
  proof (cases "read_stops err (TrimRight raw [CR, LF])")
    case (Some e)
    with rb "1.prems" show ?thesis
      by (simp add: readKeyValue_seek.simps [of r])
  next
    case None
    have raw: "unread (R r) \<noteq> []" if "TrimRight raw [CR, LF] \<noteq> []"
    proof
      assume "unread (R r) = []"
      with rb have "raw = []"
        by (simp add: ReadBytes_def)
      with that show False
        by (simp add: TrimRight_def)
    qed
    show ?thesis
    proof (cases "TrimRight raw [CR, LF] = []")
      case True
      with None rb "1.prems"
      have "readKeyValue_seek (r\<lparr>R := rd, lineNo := lineNo r + 1\<rparr>) = Inr (line, r1)"
        by (simp add: readKeyValue_seek.simps [of r])
      with "1.IH" [OF rb [symmetric] refl None] True
      have "length (unread (R r1)) < length (unread rd)"
        by simp
      moreover from None True have "err = None"
        by (auto dest: read_stops_None_empty)
      ultimately show ?thesis
        using rb by (auto dest: ReadBytes_found_shorter)
    next
      case False
      with None rb "1.prems" have "r1 = r\<lparr>R := rd, lineNo := lineNo r + 1\<rparr>"
        by (simp add: readKeyValue_seek.simps [of r])
      with raw [OF False] rb show ?thesis
        by (auto dest: ReadBytes_nonempty_shorter)
    qed
  qed
qed

lemma readKeyValue_cont_shorter:
  "readKeyValue_cont v r = Inr (v', r') \<Longrightarrow> length (unread (R r')) \<le> length (unread (R r))"
proof (induction v r rule: readKeyValue_cont.induct)
  case (1 v r)
  show ?case
  proof (cases "Peek1 (R r)")
    case (Inl e)
    with "1.prems" show ?thesis
      by (simp add: readKeyValue_cont.simps [of v r] split: if_splits)
  next
    case (Inr c)
    show ?thesis
    proof (cases "c = SP")
      case False
      with Inr "1.prems" show ?thesis
        by (simp add: readKeyValue_cont.simps [of v r])
    next
      case True
      obtain raw err rd where rb: "ReadBytes (R r) LF = (raw, err, rd)"
        by (cases "ReadBytes (R r) LF") auto
      from Inr have ne: "unread (R r) \<noteq> []"
        by (auto simp: Peek1_def split: list.splits)
      have less: "length (unread rd) < length (unread (R r))"
        using ne rb by (rule ReadBytes_nonempty_shorter)
      show ?thesis
      proof (cases "read_stops err (TrimRight (TrimLeft raw [SP]) [CR, LF])")
        case (Some e)
        with Inr True rb "1.prems" less show ?thesis
          by (auto simp add: readKeyValue_cont.simps [of v r] split: if_splits)
      next
        case None
        with Inr True rb "1.prems" "1.IH" [OF Inr _ rb [symmetric] refl None] less
        show ?thesis
          by (simp add: readKeyValue_cont.simps [of v r])
      qed
    qed
  qed
qed


lemma readKeyValue_shorter:
  "readKeyValue r = Inr (k, v, r') \<Longrightarrow> length (unread (R r')) < length (unread (R r))"
proof -
  assume a: "readKeyValue r = Inr (k, v, r')"
  then obtain line r1 where s: "readKeyValue_seek r = Inr (line, r1)"
    by (auto simp: readKeyValue_def split: sum.splits)
  with a obtain v0 where "readKeyValue_cont v0 r1 = Inr (v, r')"
    by (auto simp: readKeyValue_def split: sum.splits list.splits)
  then have "length (unread (R r')) \<le> length (unread (R r1))"
    by (rule readKeyValue_cont_shorter)
  with readKeyValue_seek_shorter [OF s] show ?thesis
    by simp
qed

subsection \<open>parseSlaves\<close>

fun parseSlaves_loop ::
  "int \<Rightarrow> (string \<rightharpoonup> string) \<Rightarrow> string list \<Rightarrow> error + (string \<rightharpoonup> string)" where
  "parseSlaves_loop ln slaves [] = Inr slaves"
| "parseSlaves_loop ln slaves (line # lines) =
     (case SplitN2 line SP of
        [name, path] \<Rightarrow> parseSlaves_loop ln (slaves(name \<mapsto> path)) lines
      | _ \<Rightarrow> Inl (ParseError ''malformed slaves line'' ln))"

definition parseSlaves :: "Parser \<Rightarrow> string \<Rightarrow> error + (string \<rightharpoonup> string)" where
  "parseSlaves r input = parseSlaves_loop (lineNo r) Map.empty (Split input LF)"

subsection \<open>Parse\<close>

text \<open>The body of the loop of \<^verbatim>\<open>Parse\<close> after a pair has been read (lines 189 to
  245): the two switches, on the state (no current alternative, or one) and the key.\<close>

definition Parse_step ::
  "Parser \<Rightarrow> string \<Rightarrow> string \<Rightarrow> Alternatives \<Rightarrow> Alternative option \<Rightarrow>
   error + (Alternatives \<times> Alternative option)" where
  "Parse_step r k v result currentAlt =
     (case currentAlt of
        None \<Rightarrow>
          if k = ''Name'' then Inr (result\<lparr>Name := v\<rparr>, None)
          else if k = ''Link'' then Inr (result\<lparr>Link := v\<rparr>, None)
          else if k = ''Slaves'' then
            (case parseSlaves r v of
               Inl err \<Rightarrow> Inl err
             | Inr slaves \<Rightarrow> Inr (result\<lparr>Slaves := Some slaves\<rparr>, None))
          else if k = ''Status'' then Inr (result\<lparr>Status := v\<rparr>, None)
          else if k = ''Best'' then Inr (result\<lparr>Best := v\<rparr>, None)
          else if k = ''Value'' then Inr (result\<lparr>Value := v\<rparr>, None)
          else if k = ''Alternative'' then Inr (result, Some (newAlternative\<lparr>Path := v\<rparr>))
          else Inl (ParseError (''unexpected key: '' @ k) (lineNo r))
      | Some alt \<Rightarrow>
          if k = ''Priority'' then
            (case Atoi v of
               None \<Rightarrow> Inl (ParseError ''invalid priority value'' (lineNo r))
             | Some priority \<Rightarrow> Inr (result, Some (alt\<lparr>Priority := priority\<rparr>)))
          else if k = ''Slaves'' then
            (case parseSlaves r v of
               Inl err \<Rightarrow> Inl err
             | Inr slaves \<Rightarrow> Inr (result, Some (alt\<lparr>Alternative.Slaves := Some slaves\<rparr>)))
          else if k = ''Alternative'' then
            Inr (result\<lparr>Alternatives := go_append (Alternatives result) alt\<rparr>,
                 Some (newAlternative\<lparr>Path := v\<rparr>))
          else Inl (ParseError (''unexpected key: '' @ k) (lineNo r)))"

text \<open>After the loop (lines 248 to 253): the alternative in progress is appended.\<close>

definition Parse_finish :: "Alternatives \<Rightarrow> Alternative option \<Rightarrow> Alternatives" where
  "Parse_finish result currentAlt =
     (case currentAlt of
        None \<Rightarrow> result
      | Some alt \<Rightarrow> result\<lparr>Alternatives := go_append (Alternatives result) alt\<rparr>)"

text \<open>The loop of \<^verbatim>\<open>Parse\<close> (lines 180 to 246) and what follows it. The loop ends
  normally when \<^verbatim>\<open>readKeyValue\<close> reports \<^verbatim>\<open>io.EOF\<close>; any other error is
  returned with no record.\<close>

function Parse_loop :: "Parser \<Rightarrow> Alternatives \<Rightarrow> Alternative option \<Rightarrow> error + Alternatives" where
  "Parse_loop r result currentAlt =
     (case readKeyValue r of
        Inl err \<Rightarrow> if err = EOF then Inr (Parse_finish result currentAlt) else Inl err
      | Inr (k, v, r') \<Rightarrow>
          (case Parse_step r' k v result currentAlt of
             Inl err \<Rightarrow> Inl err
           | Inr (result', currentAlt') \<Rightarrow> Parse_loop r' result' currentAlt'))"
  by pat_completeness auto

termination Parse_loop
proof (relation "measure (\<lambda>(r, res, cur). length (unread (R r)))", goal_cases)
  case 1
  show ?case by simp
next
  case (2 r result currentAlt kvr k vr v r')
  then have "readKeyValue r = Inr (k, v, r')"
    by simp
  then have "length (unread (R r')) < length (unread (R r))"
    by (rule readKeyValue_shorter)
  then show ?case by simp
qed

declare Parse_loop.simps [simp del]

definition Parse :: "Parser \<Rightarrow> error + Alternatives" where
  "Parse r = Parse_loop r newAlternatives None"

definition ParseString :: "string \<Rightarrow> error + Alternatives" where
  "ParseString input = Parse (NewParser (strings_NewReader input))"

section \<open>Facts about the reader\<close>

text \<open>A parser given by the bytes it has not read, the error that ends its stream, and
  its line counter.\<close>

abbreviation mkP :: "string \<Rightarrow> error \<Rightarrow> int \<Rightarrow> Parser" where
  "mkP s f n \<equiv> \<lparr>R = \<lparr>unread = s, fin = f\<rparr>, lineNo = n\<rparr>"

lemma TrimRight_Nil [simp]: "TrimRight [] cs = []"
  by (simp add: TrimRight_def)

lemma TrimRight_eq_Nil_iff: "TrimRight s cs = [] \<longleftrightarrow> set s \<subseteq> set cs"
  by (auto simp: TrimRight_def dropWhile_eq_Nil_conv)

lemma TrimRight_append_cut: "set t \<subseteq> set cs \<Longrightarrow> TrimRight (s @ t) cs = TrimRight s cs"
  by (auto simp: TrimRight_def dropWhile_append)

lemma TrimRight_append_keep:
  "\<not> set t \<subseteq> set cs \<Longrightarrow> TrimRight (s @ t) cs = s @ TrimRight t cs"
  by (auto simp: TrimRight_def dropWhile_append)

lemma TrimRight_id: "s = [] \<or> last s \<notin> set cs \<Longrightarrow> TrimRight s cs = s"
  by (cases s rule: rev_cases) (auto simp: TrimRight_def)

lemma TrimLeft_Nil [simp]: "TrimLeft [] cs = []"
  by (simp add: TrimLeft_def)

lemma TrimLeft_id: "s = [] \<or> hd s \<notin> set cs \<Longrightarrow> TrimLeft s cs = s"
  by (cases s) (auto simp: TrimLeft_def)

lemma TrimLeft_append_cut: "set t \<subseteq> set cs \<Longrightarrow> TrimLeft (t @ s) cs = TrimLeft s cs"
  by (auto simp: TrimLeft_def dropWhile_append)

lemma ReadBytes_line:
  "d \<notin> set l \<Longrightarrow> unread rd = l @ d # rest \<Longrightarrow>
   ReadBytes rd d = (l @ [d], None, rd\<lparr>unread := rest\<rparr>)"
proof -
  assume a: "d \<notin> set l" and u: "unread rd = l @ d # rest"
  from a have "dropWhile (\<lambda>c. c \<noteq> d) (l @ d # rest) = d # rest"
    by (induction l) auto
  moreover from a have "takeWhile (\<lambda>c. c \<noteq> d) (l @ d # rest) = l"
    by (induction l) auto
  ultimately show ?thesis
    unfolding ReadBytes_def u by simp
qed

lemma ReadBytes_line_mk:
  "d \<notin> set l \<Longrightarrow>
   ReadBytes \<lparr>unread = l @ d # rest, fin = f\<rparr> d = (l @ [d], None, \<lparr>unread = rest, fin = f\<rparr>)"
  using ReadBytes_line [of d l "\<lparr>unread = l @ d # rest, fin = f\<rparr>" rest] by simp

lemma ReadBytes_last:
  "d \<notin> set (unread rd) \<Longrightarrow> ReadBytes rd d = (unread rd, Some (fin rd), rd\<lparr>unread := []\<rparr>)"
proof -
  assume "d \<notin> set (unread rd)"
  then have h: "dropWhile (\<lambda>c. c \<noteq> d) (unread rd) = []"
    by (induction "unread rd") auto
  show ?thesis
    unfolding ReadBytes_def h by simp
qed

lemma seek_blank:
  assumes "set b \<subseteq> {CR}"
  shows "readKeyValue_seek (mkP (b @ LF # rest) f n) = readKeyValue_seek (mkP rest f (n + 1))"
proof -
  from assms have "LF \<notin> set b" by auto
  then have "ReadBytes \<lparr>unread = b @ LF # rest, fin = f\<rparr> LF = (b @ [LF], None, \<lparr>unread = rest, fin = f\<rparr>)"
    by (simp add: ReadBytes_line_mk)
  moreover from assms have "TrimRight (b @ [LF]) [CR, LF] = []"
    by (auto simp: TrimRight_eq_Nil_iff)
  ultimately show ?thesis
    by (simp add: readKeyValue_seek.simps [of "mkP (b @ LF # rest) f n"] read_stops_def)
qed

lemma seek_line:
  assumes "LF \<notin> set l" and "TrimRight l [CR, LF] \<noteq> []"
  shows "readKeyValue_seek (mkP (l @ LF # rest) f n) = Inr (TrimRight l [CR, LF], mkP rest f (n + 1))"
proof -
  from assms have "ReadBytes \<lparr>unread = l @ LF # rest, fin = f\<rparr> LF = (l @ [LF], None, \<lparr>unread = rest, fin = f\<rparr>)"
    by (simp add: ReadBytes_line_mk)
  moreover have "TrimRight (l @ [LF]) [CR, LF] = TrimRight l [CR, LF]"
    by (simp add: TrimRight_append_cut)
  ultimately show ?thesis
    using assms(2)
    by (simp add: readKeyValue_seek.simps [of "mkP (l @ LF # rest) f n"] read_stops_def)
qed

lemma seek_last:
  assumes "LF \<notin> set l" and "TrimRight l [CR, LF] \<noteq> []"
  shows "readKeyValue_seek (mkP l EOF n) = Inr (TrimRight l [CR, LF], mkP [] EOF (n + 1))"
proof -
  from assms have "ReadBytes \<lparr>unread = l, fin = EOF\<rparr> LF = (l, Some EOF, \<lparr>unread = [], fin = EOF\<rparr>)"
    by (simp add: ReadBytes_last)
  then show ?thesis
    using assms(2)
    by (simp add: readKeyValue_seek.simps [of "mkP l EOF n"] read_stops_def)
qed

lemma seek_exhausted:
  "set s \<subseteq> {CR, LF} \<Longrightarrow> readKeyValue_seek (mkP s f n) = Inl f"
proof (induction s arbitrary: n rule: length_induct)
  case (1 s)
  show ?case
  proof (cases "LF \<in> set s")
    case False
    then have "ReadBytes \<lparr>unread = s, fin = f\<rparr> LF = (s, Some f, \<lparr>unread = [], fin = f\<rparr>)"
      by (simp add: ReadBytes_last)
    moreover from "1.prems" have "TrimRight s [CR, LF] = []"
      by (auto simp: TrimRight_eq_Nil_iff)
    ultimately show ?thesis
      by (simp add: readKeyValue_seek.simps [of "mkP s f n"] read_stops_def)
  next
    case True
    then obtain b rest where s: "s = b @ LF # rest" and b: "LF \<notin> set b"
      by (meson split_list_first)
    with "1.prems" have "set b \<subseteq> {CR}" "set rest \<subseteq> {CR, LF}"
      by auto
    moreover from s have "length rest < length s"
      by simp
    ultimately show ?thesis
      using "1.IH" s by (simp add: seek_blank)
  qed
qed


lemma cont_stop:
  assumes "(rest = [] \<and> f = EOF) \<or> (rest \<noteq> [] \<and> hd rest \<noteq> SP)"
  shows "readKeyValue_cont v (mkP rest f n) = Inr (v, mkP rest f n)"
proof (cases rest)
  case Nil
  with assms have "Peek1 (R (mkP rest f n)) = Inl EOF"
    by (simp add: Peek1_def)
  then show ?thesis
    by (simp add: readKeyValue_cont.simps [of v "mkP rest f n"])
next
  case (Cons c cs)
  with assms have "Peek1 (R (mkP rest f n)) = Inr c" "c \<noteq> SP"
    by (simp_all add: Peek1_def)
  then show ?thesis
    by (simp add: readKeyValue_cont.simps [of v "mkP rest f n"])
qed


lemma TrimRight_TrimLeft_LF:
  "TrimRight (TrimLeft (l @ [LF]) [SP]) [CR, LF] = TrimRight (TrimLeft l [SP]) [CR, LF]"
proof (cases "set l \<subseteq> {SP}")
  case True
  then have "TrimLeft (l @ [LF]) [SP] = [LF]" "TrimLeft l [SP] = []"
    by (auto simp: TrimLeft_def dropWhile_append)
  then show ?thesis
    by (simp add: TrimRight_def)
next
  case False
  then have "TrimLeft (l @ [LF]) [SP] = TrimLeft l [SP] @ [LF]"
    by (auto simp: TrimLeft_def dropWhile_append)
  then show ?thesis
    by (simp add: TrimRight_append_cut)
qed

lemma cont_line:
  assumes "LF \<notin> set l"
  shows "readKeyValue_cont v (mkP (SP # l @ LF # rest) f n) =
         readKeyValue_cont ((if v \<noteq> [] then v @ [LF] else v) @ TrimRight (TrimLeft l [SP]) [CR, LF])
           (mkP rest f (n + 1))"
proof -
  let ?r = "mkP (SP # l @ LF # rest) f n"
  from assms have "ReadBytes \<lparr>unread = (SP # l) @ LF # rest, fin = f\<rparr> LF = ((SP # l) @ [LF], None, \<lparr>unread = rest, fin = f\<rparr>)"
    by (intro ReadBytes_line_mk) auto
  then have rb: "ReadBytes \<lparr>unread = SP # l @ LF # rest, fin = f\<rparr> LF = (SP # l @ [LF], None, \<lparr>unread = rest, fin = f\<rparr>)"
    by simp
  have "TrimLeft (SP # l @ [LF]) [SP] = TrimLeft (l @ [LF]) [SP]"
    by (simp add: TrimLeft_def)
  then have tr: "TrimRight (TrimLeft (SP # l @ [LF]) [SP]) [CR, LF] = TrimRight (TrimLeft l [SP]) [CR, LF]"
    by (simp add: TrimRight_TrimLeft_LF)
  have pk: "Peek1 \<lparr>unread = SP # l @ LF # rest, fin = f\<rparr> = Inr SP"
    by (simp add: Peek1_def)
  show ?thesis
    by (subst readKeyValue_cont.simps) (simp add: rb tr pk read_stops_def)
qed

lemma SplitN2_first:
  "sep \<notin> set k \<Longrightarrow> SplitN2 (k @ sep # t) sep = [k, t]"
proof -
  assume a: "sep \<notin> set k"
  then have "takeWhile (\<lambda>c. c \<noteq> sep) (k @ sep # t) = k"
    by (induction k) auto
  moreover from a have "dropWhile (\<lambda>c. c \<noteq> sep) (k @ sep # t) = sep # t"
    by (induction k) auto
  ultimately show ?thesis
    by (simp add: SplitN2_def)
qed

lemma SplitN2_none: "sep \<notin> set s \<Longrightarrow> SplitN2 s sep = [s]"
  by (simp add: SplitN2_def)

lemma TrimRight_Cons_keep: "c \<notin> set cs \<Longrightarrow> TrimRight (c # t) cs = c # TrimRight t cs"
  by (auto simp: TrimRight_def dropWhile_append)

lemma TrimRight_key:
  "c \<notin> set cs \<Longrightarrow> TrimRight (k @ c # t) cs = k @ c # TrimRight t cs"
  using TrimRight_append_keep [of "c # t" cs k] by (auto simp: TrimRight_Cons_keep)

lemma trim_value:
  assumes "body = [] \<or> (hd body \<noteq> SP \<and> last body \<noteq> CR \<and> last body \<noteq> LF)"
  shows "TrimRight (TrimLeft (TrimRight (replicate i SP @ body @ replicate j CR) [CR, LF]) [SP]) [CR, LF] = body"
proof -
  have "TrimRight ((replicate i SP @ body) @ replicate j CR) [CR, LF] = TrimRight (replicate i SP @ body) [CR, LF]"
    by (rule TrimRight_append_cut) auto
  also have "\<dots> = replicate i SP @ body"
    using assms by (intro TrimRight_id) (auto simp: last_append)
  finally have "TrimRight (replicate i SP @ body @ replicate j CR) [CR, LF] = replicate i SP @ body"
    by simp
  moreover have "TrimLeft (replicate i SP @ body) [SP] = TrimLeft body [SP]"
    by (rule TrimLeft_append_cut) auto
  moreover have "TrimLeft body [SP] = body"
    using assms by (intro TrimLeft_id) auto
  moreover have "TrimRight body [CR, LF] = body"
    using assms by (intro TrimRight_id) auto
  ultimately show ?thesis
    by simp
qed

lemma readKeyValue_key_line:
  assumes k: "CHR '':'' \<notin> set k" "LF \<notin> set k"
    and body: "LF \<notin> set body" "body = [] \<or> (hd body \<noteq> SP \<and> last body \<noteq> CR)"
    and follow: "(rest = [] \<and> f = EOF) \<or> (rest \<noteq> [] \<and> hd rest \<noteq> SP)"
  shows "readKeyValue (mkP (k @ CHR '':'' # replicate i SP @ body @ replicate j CR @ LF # rest) f n)
         = Inr (k, body, mkP rest f (n + 1))"
proof -
  let ?txt = "replicate i SP @ body @ replicate j CR"
  let ?l = "k @ CHR '':'' # ?txt"
  have l: "LF \<notin> set ?l"
    using k body by auto
  have tl: "TrimRight ?l [CR, LF] = k @ CHR '':'' # TrimRight ?txt [CR, LF]"
    by (rule TrimRight_key) simp
  then have ne: "TrimRight ?l [CR, LF] \<noteq> []"
    by simp
  have "readKeyValue_seek (mkP (?l @ LF # rest) f n) = Inr (TrimRight ?l [CR, LF], mkP rest f (n + 1))"
    using l ne by (rule seek_line)
  then have seek: "readKeyValue_seek
        (mkP (k @ CHR '':'' # replicate i SP @ body @ replicate j CR @ LF # rest) f n)
      = Inr (k @ CHR '':'' # TrimRight ?txt [CR, LF], mkP rest f (n + 1))"
    using tl by simp
  have split: "SplitN2 (k @ CHR '':'' # TrimRight ?txt [CR, LF]) (CHR '':'') = [k, TrimRight ?txt [CR, LF]]"
    using k(1) by (rule SplitN2_first)
  have "body \<noteq> [] \<Longrightarrow> last body \<noteq> LF"
    using body(1) by (metis last_in_set)
  then have val: "TrimRight (TrimLeft (TrimRight ?txt [CR, LF]) [SP]) [CR, LF] = body"
    using body by (intro trim_value) auto
  have cont: "readKeyValue_cont body (mkP rest f (n + 1)) = Inr (body, mkP rest f (n + 1))"
    using follow by (rule cont_stop)
  show ?thesis
    by (simp add: readKeyValue_def seek split val cont)
qed


lemma readKeyValue_key_line_last:
  assumes k: "CHR '':'' \<notin> set k" "LF \<notin> set k"
    and body: "LF \<notin> set body" "body = [] \<or> (hd body \<noteq> SP \<and> last body \<noteq> CR)"
  shows "readKeyValue (mkP (k @ CHR '':'' # replicate i SP @ body @ replicate j CR) EOF n)
         = Inr (k, body, mkP [] EOF (n + 1))"
proof -
  let ?txt = "replicate i SP @ body @ replicate j CR"
  let ?l = "k @ CHR '':'' # ?txt"
  have l: "LF \<notin> set ?l"
    using k body by auto
  have tl: "TrimRight ?l [CR, LF] = k @ CHR '':'' # TrimRight ?txt [CR, LF]"
    by (rule TrimRight_key) simp
  then have ne: "TrimRight ?l [CR, LF] \<noteq> []"
    by simp
  have "readKeyValue_seek (mkP ?l EOF n) = Inr (TrimRight ?l [CR, LF], mkP [] EOF (n + 1))"
    using l ne by (rule seek_last)
  then have seek: "readKeyValue_seek (mkP (k @ CHR '':'' # replicate i SP @ body @ replicate j CR) EOF n)
      = Inr (k @ CHR '':'' # TrimRight ?txt [CR, LF], mkP [] EOF (n + 1))"
    using tl by simp
  have split: "SplitN2 (k @ CHR '':'' # TrimRight ?txt [CR, LF]) (CHR '':'') = [k, TrimRight ?txt [CR, LF]]"
    using k(1) by (rule SplitN2_first)
  have "body \<noteq> [] \<Longrightarrow> last body \<noteq> LF"
    using body(1) by (metis last_in_set)
  then have val: "TrimRight (TrimLeft (TrimRight ?txt [CR, LF]) [SP]) [CR, LF] = body"
    using body by (intro trim_value) auto
  have cont: "readKeyValue_cont body (mkP [] EOF (n + 1)) = Inr (body, mkP [] EOF (n + 1))"
    by (rule cont_stop) simp
  show ?thesis
    by (simp add: readKeyValue_def seek split val cont)
qed

lemma readKeyValue_exhausted:
  "set s \<subseteq> {CR, LF} \<Longrightarrow> readKeyValue (mkP s f n) = Inl f"
  by (simp add: readKeyValue_def seek_exhausted)

lemma Parse_loop_end:
  "readKeyValue r = Inl EOF \<Longrightarrow> Parse_loop r result cur = Inr (Parse_finish result cur)"
  by (simp add: Parse_loop.simps [of r result cur])

lemma Parse_loop_error:
  "readKeyValue r = Inl e \<Longrightarrow> e \<noteq> EOF \<Longrightarrow> Parse_loop r result cur = Inl e"
  by (simp add: Parse_loop.simps [of r result cur])

lemma Parse_loop_pair:
  "readKeyValue r = Inr (k, v, r') \<Longrightarrow>
   Parse_loop r result cur =
     (case Parse_step r' k v result cur of
        Inl err \<Rightarrow> Inl err
      | Inr (result', cur') \<Rightarrow> Parse_loop r' result' cur')"
  by (simp add: Parse_loop.simps [of r result cur])

lemma ParseString_eq:
  "ParseString s = Parse_loop (mkP s EOF 0) newAlternatives None"
  by (simp add: ParseString_def Parse_def NewParser_def strings_NewReader_def)

lemma seek_blanks:
  assumes "\<forall>b\<in>set bs. set b \<subseteq> {CR}"
  shows "readKeyValue_seek (mkP (concat (map (\<lambda>b. b @ [LF]) bs) @ rest) f n)
         = readKeyValue_seek (mkP rest f (n + int (length bs)))"
  using assms
proof (induction bs arbitrary: n)
  case Nil
  show ?case by simp
next
  case (Cons b bs)
  then have "readKeyValue_seek (mkP (b @ LF # concat (map (\<lambda>b. b @ [LF]) bs) @ rest) f n)
      = readKeyValue_seek (mkP (concat (map (\<lambda>b. b @ [LF]) bs) @ rest) f (n + 1))"
    by (intro seek_blank) simp
  also have "\<dots> = readKeyValue_seek (mkP rest f (n + 1 + int (length bs)))"
    using Cons by simp
  finally show ?case
    by (simp add: add.assoc)
qed

lemma readKeyValue_blanks:
  assumes "\<forall>b\<in>set bs. set b \<subseteq> {CR}"
  shows "readKeyValue (mkP (concat (map (\<lambda>b. b @ [LF]) bs) @ rest) f n)
         = readKeyValue (mkP rest f (n + int (length bs)))"
  using assms by (simp add: readKeyValue_def seek_blanks)

lemma readKeyValue_no_colon:
  assumes "CHR '':'' \<notin> set l" and "LF \<notin> set l" and "TrimRight l [CR, LF] \<noteq> []"
    and "(rest = [] \<and> f = EOF) \<or> (rest \<noteq> [] \<and> hd rest = LF)"
  shows "readKeyValue (mkP (l @ rest) f n) = Inl (ParseError ''malformed line'' (n + 1))"
proof -
  have sub: "set (TrimRight l [CR, LF]) \<subseteq> set l"
    by (auto simp: TrimRight_def dest: set_dropWhileD)
  with assms(1) have split: "SplitN2 (TrimRight l [CR, LF]) (CHR '':'') = [TrimRight l [CR, LF]]"
    by (intro SplitN2_none) auto
  from assms(4) show ?thesis
  proof
    assume "rest = [] \<and> f = EOF"
    then show ?thesis
      using seek_last [OF assms(2,3), of n] split by (simp add: readKeyValue_def)
  next
    assume "rest \<noteq> [] \<and> hd rest = LF"
    then obtain rest' where "rest = LF # rest'"
      by (cases rest) auto
    then show ?thesis
      using seek_line [OF assms(2,3), of rest' f n] split by (simp add: readKeyValue_def)
  qed
qed

subsection \<open>Integers as text\<close>

text \<open>The decimal text of an integer, as \<^verbatim>\<open>strconv.Itoa\<close> writes it (a minus sign for a
  negative number, no leading zeros). It serves to state what a valid integer is; the
  parser does not call it.\<close>

definition digit_char :: "nat \<Rightarrow> char" where
  "digit_char d = char_of (48 + d)"

fun decimal :: "nat \<Rightarrow> string" where
  "decimal n = (if n < 10 then [digit_char n] else decimal (n div 10) @ [digit_char (n mod 10)])"

definition Itoa :: "int \<Rightarrow> string" where
  "Itoa n = (if n < 0 then CHR ''-'' # decimal (nat (- n)) else decimal (nat n))"

text \<open>An integer as text, written without reference to \<open>Atoi\<close>: an optional sign
  (\<^verbatim>\<open>+\<close> or \<^verbatim>\<open>-\<close>) followed by one or more of the ten digit characters and nothing else.
  Its value is read from the units upwards, each digit counting ten times the one after
  it; leading zeros are allowed and change nothing.\<close>

definition is_int_syntax :: "string \<Rightarrow> bool" where
  "is_int_syntax v =
     (case v of
        [] \<Rightarrow> False
      | c # cs \<Rightarrow>
          if c = CHR ''-'' \<or> c = CHR ''+''
          then cs \<noteq> [] \<and> list_all (\<lambda>d. d \<in> set ''0123456789'') cs
          else list_all (\<lambda>d. d \<in> set ''0123456789'') v)"

primrec units_first_value :: "string \<Rightarrow> nat" where
  "units_first_value [] = 0"
| "units_first_value (c # cs) = (of_char c - 48) + 10 * units_first_value cs"

definition int_of_text :: "string \<Rightarrow> int" where
  "int_of_text v =
     (case v of
        [] \<Rightarrow> 0
      | c # cs \<Rightarrow>
          if c = CHR ''-'' then - int (units_first_value (rev cs))
          else if c = CHR ''+'' then int (units_first_value (rev cs))
          else int (units_first_value (rev v)))"

declare decimal.simps [simp del]

lemma of_char_digit_char: "d < 10 \<Longrightarrow> (of_char (digit_char d) :: nat) = 48 + d"
  by (simp add: digit_char_def)

lemma isDigit_digit_char: "d < 10 \<Longrightarrow> isDigit (digit_char d)"
  by (simp add: isDigit_def of_char_digit_char)

lemma isDigit_not_sign: "isDigit c \<Longrightarrow> c \<noteq> CHR ''-'' \<and> c \<noteq> CHR ''+''"
  by (auto simp: isDigit_def)

lemma decimal_digits: "list_all isDigit (decimal n)"
proof (induction n rule: decimal.induct)
  case (1 n)
  then show ?case
    by (subst decimal.simps) (auto simp: isDigit_digit_char)
qed

lemma decimal_nonempty: "decimal n \<noteq> []"
  by (subst decimal.simps) simp

lemma digits_val_snoc: "digits_val (ds @ [c]) = digits_val ds * 10 + int (of_char c - 48)"
  by (simp add: digits_val_def)

lemma digits_val_decimal: "digits_val (decimal n) = int n"
proof (induction n rule: decimal.induct)
  case (1 n)
  show ?case
  proof (cases "n < 10")
    case True
    then show ?thesis
      by (subst decimal.simps) (simp add: digits_val_def of_char_digit_char)
  next
    case False
    then have "digits_val (decimal n) = digits_val (decimal (n div 10)) * 10 + int (n mod 10)"
      by (subst decimal.simps) (simp add: digits_val_snoc of_char_digit_char)
    also have "\<dots> = int (n div 10) * 10 + int (n mod 10)"
      using False "1.IH" by simp
    also have "\<dots> = int n"
      by (simp add: zdiv_int zmod_int)
    finally show ?thesis .
  qed
qed

lemma hd_decimal_not_sign: "hd (decimal n) \<noteq> CHR ''-'' \<and> hd (decimal n) \<noteq> CHR ''+''"
proof -
  have "isDigit (hd (decimal n))"
    using decimal_digits [of n] decimal_nonempty [of n]
    by (cases "decimal n") auto
  then show ?thesis
    by (rule isDigit_not_sign)
qed

lemma Atoi_Itoa:
  "Atoi (Itoa n) = (if - (2 ^ 63) \<le> n \<and> n \<le> 2 ^ 63 - 1 then Some n else None)"
proof (cases "n < 0")
  case True
  then show ?thesis
    by (simp add: Atoi_def Itoa_def decimal_nonempty decimal_digits digits_val_decimal)
next
  case False
  then show ?thesis
    using hd_decimal_not_sign [of "nat n"]
    by (simp add: Atoi_def Itoa_def decimal_nonempty decimal_digits digits_val_decimal)
qed

lemma isDigit_iff: "isDigit c \<longleftrightarrow> c \<in> set ''0123456789''"
proof
  assume "c \<in> set ''0123456789''"
  then show "isDigit c"
    by (auto simp: isDigit_def)
next
  assume d: "isDigit c"
  have c: "c = char_of (of_char c :: nat)"
    by simp
  from d have "(of_char c :: nat) \<in> {48, 49, 50, 51, 52, 53, 54, 55, 56, 57}"
    unfolding isDigit_def by (simp only: insert_iff empty_iff) arith
  then consider "(of_char c :: nat) = 48" | "(of_char c :: nat) = 49" | "(of_char c :: nat) = 50"
    | "(of_char c :: nat) = 51" | "(of_char c :: nat) = 52" | "(of_char c :: nat) = 53"
    | "(of_char c :: nat) = 54" | "(of_char c :: nat) = 55" | "(of_char c :: nat) = 56"
    | "(of_char c :: nat) = 57"
    by auto
  then have "c = CHR ''0'' \<or> c = CHR ''1'' \<or> c = CHR ''2'' \<or> c = CHR ''3'' \<or> c = CHR ''4''
      \<or> c = CHR ''5'' \<or> c = CHR ''6'' \<or> c = CHR ''7'' \<or> c = CHR ''8'' \<or> c = CHR ''9''"
  proof cases
    case 1
    have "char_of (48 :: nat) = CHR ''0''" by code_simp
    with c 1 show ?thesis by simp
  next
    case 2
    have "char_of (49 :: nat) = CHR ''1''" by code_simp
    with c 2 show ?thesis by simp
  next
    case 3
    have "char_of (50 :: nat) = CHR ''2''" by code_simp
    with c 3 show ?thesis by simp
  next
    case 4
    have "char_of (51 :: nat) = CHR ''3''" by code_simp
    with c 4 show ?thesis by simp
  next
    case 5
    have "char_of (52 :: nat) = CHR ''4''" by code_simp
    with c 5 show ?thesis by simp
  next
    case 6
    have "char_of (53 :: nat) = CHR ''5''" by code_simp
    with c 6 show ?thesis by simp
  next
    case 7
    have "char_of (54 :: nat) = CHR ''6''" by code_simp
    with c 7 show ?thesis by simp
  next
    case 8
    have "char_of (55 :: nat) = CHR ''7''" by code_simp
    with c 8 show ?thesis by simp
  next
    case 9
    have "char_of (56 :: nat) = CHR ''8''" by code_simp
    with c 9 show ?thesis by simp
  next
    case 10
    have "char_of (57 :: nat) = CHR ''9''" by code_simp
    with c 10 show ?thesis by simp
  qed
  then show "c \<in> set ''0123456789''"
    by auto
qed

lemma is_int_syntax_isDigit:
  "is_int_syntax v =
     (case v of
        [] \<Rightarrow> False
      | c # cs \<Rightarrow>
          if c = CHR ''-'' \<or> c = CHR ''+'' then cs \<noteq> [] \<and> list_all isDigit cs
          else list_all isDigit v)"
proof -
  have "(\<lambda>d. d \<in> set ''0123456789'') = isDigit"
    by (rule ext) (simp only: isDigit_iff)
  then show ?thesis
    unfolding is_int_syntax_def by (simp only:)
qed

lemma Atoi_bad_syntax: "\<not> is_int_syntax v \<Longrightarrow> Atoi v = None"
  by (cases v) (auto simp: Atoi_def is_int_syntax_isDigit split: if_splits)

lemma is_int_syntax_Itoa: "is_int_syntax (Itoa n)"
proof (cases "decimal (nat n)")
  case Nil
  then show ?thesis by (simp add: decimal_nonempty)
next
  case (Cons c cs)
  then show ?thesis
    using hd_decimal_not_sign [of "nat n"] decimal_digits [of "nat n"]
    by (auto simp: is_int_syntax_isDigit Itoa_def decimal_nonempty decimal_digits)
qed

lemma digits_val_units_first: "digits_val ds = int (units_first_value (rev ds))"
  by (induction ds rule: rev_induct) (simp_all add: digits_val_def)

lemma Atoi_syntax:
  assumes "is_int_syntax v"
  shows "Atoi v = (if - (2 ^ 63) \<le> int_of_text v \<and> int_of_text v \<le> 2 ^ 63 - 1
                   then Some (int_of_text v) else None)"
proof (cases v)
  case Nil
  with assms show ?thesis by (simp add: is_int_syntax_isDigit)
next
  case (Cons c cs)
  show ?thesis
  proof (cases "c = CHR ''-'' \<or> c = CHR ''+''")
    case True
    with assms Cons have "cs \<noteq> []" "list_all isDigit cs"
      by (simp_all add: is_int_syntax_isDigit)
    with True Cons show ?thesis
      by (auto simp: Atoi_def int_of_text_def digits_val_units_first)
  next
    case False
    with assms Cons have "list_all isDigit v"
      by (simp add: is_int_syntax_isDigit)
    with False Cons show ?thesis
      by (simp add: Atoi_def int_of_text_def digits_val_units_first)
  qed
qed

lemma int_of_text_Itoa: "int_of_text (Itoa n) = n"
proof -
  have d: "int (units_first_value (rev (decimal m))) = int m" for m
    using digits_val_decimal [of m] by (simp add: digits_val_units_first)
  show ?thesis
  proof (cases "n < 0")
    case True
    then show ?thesis
      using d [of "nat (- n)"] by (simp add: Itoa_def int_of_text_def)
  next
    case False
    obtain c cs where dc: "decimal (nat n) = c # cs"
      using decimal_nonempty [of "nat n"] by (cases "decimal (nat n)") auto
    with hd_decimal_not_sign [of "nat n"] have "c \<noteq> CHR ''-''" "c \<noteq> CHR ''+''"
      by simp_all
    with False dc show ?thesis
      using d [of "nat n"] by (simp add: Itoa_def int_of_text_def)
  qed
qed



subsection \<open>Two inputs read alike\<close>

text \<open>Two readers step alike under a relation \<open>Q\<close> when they agree on whether the next
  byte is a space (or on the error), and the lines they read agree once trimmed, stop
  the loops alike, and leave readers related by \<open>Q\<close> again. Parsers whose readers are so
  related and whose line counters agree give the same result.\<close>

definition sim_step :: "(Reader \<Rightarrow> Reader \<Rightarrow> bool) \<Rightarrow> Reader \<Rightarrow> Reader \<Rightarrow> bool" where
  "sim_step Q rd1 rd2 =
     (map_sum id (\<lambda>c. c = SP) (Peek1 rd1) = map_sum id (\<lambda>c. c = SP) (Peek1 rd2) \<and>
      (case (ReadBytes rd1 LF, ReadBytes rd2 LF) of
         ((raw1, err1, rd1'), (raw2, err2, rd2')) \<Rightarrow>
           TrimRight raw1 [CR, LF] = TrimRight raw2 [CR, LF] \<and>
           TrimRight (TrimLeft raw1 [SP]) [CR, LF] = TrimRight (TrimLeft raw2 [SP]) [CR, LF] \<and>
           read_stops err1 (TrimRight raw1 [CR, LF]) = read_stops err2 (TrimRight raw1 [CR, LF]) \<and>
           read_stops err1 (TrimRight (TrimLeft raw1 [SP]) [CR, LF])
             = read_stops err2 (TrimRight (TrimLeft raw1 [SP]) [CR, LF]) \<and>
           Q rd1' rd2'))"

definition sim_parsers :: "(Reader \<Rightarrow> Reader \<Rightarrow> bool) \<Rightarrow> Parser \<Rightarrow> Parser \<Rightarrow> bool" where
  "sim_parsers Q r1 r2 = (Q (R r1) (R r2) \<and> lineNo r1 = lineNo r2)"

lemma seek_sim:
  assumes step: "\<And>rd1 rd2. Q rd1 rd2 \<Longrightarrow> sim_step Q rd1 rd2"
  shows "sim_parsers Q r1 r2 \<Longrightarrow>
         rel_sum (=) (\<lambda>(l1, p1) (l2, p2). l1 = l2 \<and> sim_parsers Q p1 p2)
           (readKeyValue_seek r1) (readKeyValue_seek r2)"
proof (induction r1 arbitrary: r2 rule: readKeyValue_seek.induct)
  case (1 r1)
  obtain raw1 err1 rd1 where rb1: "ReadBytes (R r1) LF = (raw1, err1, rd1)"
    by (cases "ReadBytes (R r1) LF") auto
  obtain raw2 err2 rd2 where rb2: "ReadBytes (R r2) LF = (raw2, err2, rd2)"
    by (cases "ReadBytes (R r2) LF") auto
  from "1.prems" have "sim_step Q (R r1) (R r2)" and ln: "lineNo r1 = lineNo r2"
    by (auto simp: sim_parsers_def intro: step)
  with rb1 rb2 have tr: "TrimRight raw2 [CR, LF] = TrimRight raw1 [CR, LF]"
    and st: "read_stops err2 (TrimRight raw1 [CR, LF]) = read_stops err1 (TrimRight raw1 [CR, LF])"
    and q: "Q rd1 rd2"
    by (auto simp: sim_step_def)
  let ?n1 = "r1\<lparr>R := rd1, lineNo := lineNo r1 + 1\<rparr>"
  let ?n2 = "r2\<lparr>R := rd2, lineNo := lineNo r2 + 1\<rparr>"
  have next_sim: "sim_parsers Q ?n1 ?n2"
    using q ln by (simp add: sim_parsers_def)
  show ?case
  proof (cases "read_stops err1 (TrimRight raw1 [CR, LF])")
    case (Some e)
    then show ?thesis
      using rb1 rb2 tr st
      by (simp add: readKeyValue_seek.simps [of r1] readKeyValue_seek.simps [of r2])
  next
    case None
    show ?thesis
    proof (cases "TrimRight raw1 [CR, LF] = []")
      case False
      then show ?thesis
        using None rb1 rb2 tr st next_sim
        by (simp add: readKeyValue_seek.simps [of r1] readKeyValue_seek.simps [of r2])
    next
      case True
      have "rel_sum (=) (\<lambda>(l1, p1) (l2, p2). l1 = l2 \<and> sim_parsers Q p1 p2)
              (readKeyValue_seek ?n1) (readKeyValue_seek ?n2)"
        using "1.IH" [OF rb1 [symmetric] refl None _ next_sim] True by simp
      then show ?thesis
        using None True rb1 rb2 tr st
        by (simp add: readKeyValue_seek.simps [of r1] readKeyValue_seek.simps [of r2])
    qed
  qed
qed

lemma cont_sim:
  assumes step: "\<And>rd1 rd2. Q rd1 rd2 \<Longrightarrow> sim_step Q rd1 rd2"
  shows "sim_parsers Q r1 r2 \<Longrightarrow>
         rel_sum (=) (\<lambda>(l1, p1) (l2, p2). l1 = l2 \<and> sim_parsers Q p1 p2)
           (readKeyValue_cont v r1) (readKeyValue_cont v r2)"
proof (induction v r1 arbitrary: r2 rule: readKeyValue_cont.induct)
  case (1 v r1)
  obtain raw1 err1 rd1 where rb1: "ReadBytes (R r1) LF = (raw1, err1, rd1)"
    by (cases "ReadBytes (R r1) LF") auto
  obtain raw2 err2 rd2 where rb2: "ReadBytes (R r2) LF = (raw2, err2, rd2)"
    by (cases "ReadBytes (R r2) LF") auto
  from "1.prems" have "sim_step Q (R r1) (R r2)" and ln: "lineNo r1 = lineNo r2"
    by (auto simp: sim_parsers_def intro: step)
  with rb1 rb2 have pk: "map_sum id (\<lambda>c. c = SP) (Peek1 (R r1)) = map_sum id (\<lambda>c. c = SP) (Peek1 (R r2))"
    and tr: "TrimRight (TrimLeft raw2 [SP]) [CR, LF] = TrimRight (TrimLeft raw1 [SP]) [CR, LF]"
    and st: "read_stops err2 (TrimRight (TrimLeft raw1 [SP]) [CR, LF])
           = read_stops err1 (TrimRight (TrimLeft raw1 [SP]) [CR, LF])"
    and q: "Q rd1 rd2"
    by (auto simp: sim_step_def)
  let ?line = "TrimRight (TrimLeft raw1 [SP]) [CR, LF]"
  let ?n1 = "r1\<lparr>R := rd1, lineNo := lineNo r1 + 1\<rparr>"
  let ?n2 = "r2\<lparr>R := rd2, lineNo := lineNo r2 + 1\<rparr>"
  have next_sim: "sim_parsers Q ?n1 ?n2"
    using q ln by (simp add: sim_parsers_def)
  have stop_sim: "sim_parsers Q (r1\<lparr>R := rd1\<rparr>) (r2\<lparr>R := rd2\<rparr>)"
    using q ln by (simp add: sim_parsers_def)
  show ?case
  proof (cases "Peek1 (R r1)")
    case (Inl e)
    with pk have "Peek1 (R r2) = Inl e"
      by (cases "Peek1 (R r2)") auto
    with Inl "1.prems" show ?thesis
      by (simp add: readKeyValue_cont.simps [of v r1] readKeyValue_cont.simps [of v r2])
  next
    case (Inr c)
    with pk obtain c' where p2: "Peek1 (R r2) = Inr c'" and cc: "(c = SP) = (c' = SP)"
      by (cases "Peek1 (R r2)") auto
    show ?thesis
    proof (cases "c = SP")
      case False
      with Inr p2 cc "1.prems" show ?thesis
        by (simp add: readKeyValue_cont.simps [of v r1] readKeyValue_cont.simps [of v r2])
    next
      case True
      with cc have c': "c' = SP" by simp
      show ?thesis
      proof (cases "read_stops err1 ?line")
        case (Some e)
        with Inr p2 True c' rb1 rb2 tr st stop_sim show ?thesis
          by (simp add: readKeyValue_cont.simps [of v r1] readKeyValue_cont.simps [of v r2])
      next
        case None
        have "rel_sum (=) (\<lambda>(l1, p1) (l2, p2). l1 = l2 \<and> sim_parsers Q p1 p2)
                (readKeyValue_cont ((if v \<noteq> [] then v @ [LF] else v) @ ?line) ?n1)
                (readKeyValue_cont ((if v \<noteq> [] then v @ [LF] else v) @ ?line) ?n2)"
          using "1.IH" [OF Inr _ rb1 [symmetric] refl None next_sim] True by simp
        with Inr p2 True c' rb1 rb2 tr st None show ?thesis
          by (simp add: readKeyValue_cont.simps [of v r1] readKeyValue_cont.simps [of v r2])
      qed
    qed
  qed
qed


lemma readKeyValue_sim:
  assumes step: "\<And>rd1 rd2. Q rd1 rd2 \<Longrightarrow> sim_step Q rd1 rd2"
    and sim: "sim_parsers Q r1 r2"
  shows "rel_sum (=) (\<lambda>(k1, v1, p1) (k2, v2, p2). k1 = k2 \<and> v1 = v2 \<and> sim_parsers Q p1 p2)
           (readKeyValue r1) (readKeyValue r2)"
proof -
  note s = seek_sim [of Q, OF step sim]
  show ?thesis
  proof (cases "readKeyValue_seek r1")
    case (Inl e)
    with s have "readKeyValue_seek r2 = Inl e"
      by (cases "readKeyValue_seek r2") auto
    with Inl show ?thesis
      by (simp add: readKeyValue_def)
  next
    case (Inr a)
    obtain line p1 where a: "a = (line, p1)"
      by (cases a) auto
    with Inr s obtain p2 where s2: "readKeyValue_seek r2 = Inr (line, p2)"
      and p: "sim_parsers Q p1 p2"
      by (cases "readKeyValue_seek r2") auto
    have ln: "lineNo p1 = lineNo p2"
      using p by (simp add: sim_parsers_def)
    show ?thesis
    proof (cases "CHR '':'' \<in> set line")
      case False
      then have "SplitN2 line (CHR '':'') = [line]"
        by (simp add: SplitN2_def)
      with Inr a s2 ln show ?thesis
        by (simp add: readKeyValue_def)
    next
      case True
      then obtain key rest where sp: "SplitN2 line (CHR '':'') = [key, rest]"
        by (simp add: SplitN2_def)
      note c = cont_sim [of Q, OF step p, of "TrimRight (TrimLeft rest [SP]) [CR, LF]"]
      show ?thesis
      proof (cases "readKeyValue_cont (TrimRight (TrimLeft rest [SP]) [CR, LF]) p1")
        case (Inl e)
        with c have "readKeyValue_cont (TrimRight (TrimLeft rest [SP]) [CR, LF]) p2 = Inl e"
          by (cases "readKeyValue_cont (TrimRight (TrimLeft rest [SP]) [CR, LF]) p2") auto
        with Inl Inr a s2 sp show ?thesis
          by (simp add: readKeyValue_def)
      next
        case (Inr b)
        obtain v q1 where b: "b = (v, q1)"
          by (cases b) auto
        with Inr c obtain q2 where
          "readKeyValue_cont (TrimRight (TrimLeft rest [SP]) [CR, LF]) p2 = Inr (v, q2)"
          and "sim_parsers Q q1 q2"
          by (cases "readKeyValue_cont (TrimRight (TrimLeft rest [SP]) [CR, LF]) p2") auto
        with Inr b \<open>readKeyValue_seek r1 = Inr a\<close> a s2 sp show ?thesis
          by (simp add: readKeyValue_def)
      qed
    qed
  qed
qed

lemma parseSlaves_lineNo: "lineNo r1 = lineNo r2 \<Longrightarrow> parseSlaves r1 v = parseSlaves r2 v"
  by (simp add: parseSlaves_def)

lemma Parse_step_lineNo:
  assumes "lineNo r1 = lineNo r2"
  shows "Parse_step r1 k v result cur = Parse_step r2 k v result cur"
  unfolding Parse_step_def parseSlaves_lineNo [OF assms] assms by (rule refl)

lemma Parse_loop_sim:
  assumes step: "\<And>rd1 rd2. Q rd1 rd2 \<Longrightarrow> sim_step Q rd1 rd2"
  shows "sim_parsers Q r1 r2 \<Longrightarrow> Parse_loop r1 result cur = Parse_loop r2 result cur"
proof (induction r1 result cur arbitrary: r2 rule: Parse_loop.induct)
  case (1 r1 result cur)
  note kv = readKeyValue_sim [of Q, OF step "1.prems"]
  show ?case
  proof (cases "readKeyValue r1")
    case (Inl e)
    with kv have "readKeyValue r2 = Inl e"
      by (cases "readKeyValue r2") auto
    with Inl show ?thesis
      by (simp add: Parse_loop.simps [of r1] Parse_loop.simps [of r2])
  next
    case (Inr a)
    obtain k v p1 where a: "a = (k, v, p1)"
      by (cases a) auto
    with Inr kv obtain p2 where r2: "readKeyValue r2 = Inr (k, v, p2)"
      and p: "sim_parsers Q p1 p2"
      by (cases "readKeyValue r2") auto
    then have "lineNo p2 = lineNo p1"
      by (simp add: sim_parsers_def)
    then have st: "Parse_step p2 k v result cur = Parse_step p1 k v result cur"
      by (rule Parse_step_lineNo)
    show ?thesis
    proof (cases "Parse_step p1 k v result cur")
      case (Inl e)
      with Inr a r2 st show ?thesis
        by (simp add: Parse_loop.simps [of r1] Parse_loop.simps [of r2])
    next
      case (Inr b)
      obtain result' cur' where b: "b = (result', cur')"
        by (cases b) auto
      have "Parse_loop p1 result' cur' = Parse_loop p2 result' cur'"
        using \<open>readKeyValue r1 = Inr a\<close> a Inr b p by (intro "1.IH") auto
      with \<open>readKeyValue r1 = Inr a\<close> a r2 st Inr b show ?thesis
        by (simp add: Parse_loop.simps [of r1] Parse_loop.simps [of r2])
    qed
  qed
qed

subsection \<open>CRLF line endings\<close>

text \<open>\<^verbatim>\<open>strings.ReplaceAll(s, "\n", "\r\n")\<close>, as the tests build a CRLF input.\<close>

definition crlf :: "string \<Rightarrow> string" where
  "crlf s = concat (map (\<lambda>c. if c = LF then [CR, LF] else [c]) s)"

lemma crlf_simps [simp]:
  "crlf [] = []"
  "crlf (LF # s) = CR # LF # crlf s"
  "c \<noteq> LF \<Longrightarrow> crlf (c # s) = c # crlf s"
  "crlf (s @ t) = crlf s @ crlf t"
  by (simp_all add: crlf_def)

lemma crlf_no_LF: "LF \<notin> set s \<Longrightarrow> crlf s = s"
  by (induction s) auto

lemma trims_append_cut:
  assumes "set t \<subseteq> {CR, LF}"
  shows "TrimRight (TrimLeft (l @ t) [SP]) [CR, LF] = TrimRight (TrimLeft l [SP]) [CR, LF]"
proof (cases "set l \<subseteq> {SP}")
  case True
  then have "TrimLeft (l @ t) [SP] = TrimLeft t [SP]" "TrimLeft l [SP] = []"
    by (auto simp: TrimLeft_def dropWhile_append)
  moreover have "set (TrimLeft t [SP]) \<subseteq> {CR, LF}"
    using assms by (auto simp: TrimLeft_def dest: set_dropWhileD)
  ultimately show ?thesis
    by (simp add: TrimRight_eq_Nil_iff)
next
  case False
  then have "TrimLeft (l @ t) [SP] = TrimLeft l [SP] @ t"
    by (auto simp: TrimLeft_def dropWhile_append)
  then show ?thesis
    using assms by (simp add: TrimRight_append_cut)
qed

definition crlf_readers :: "Reader \<Rightarrow> Reader \<Rightarrow> bool" where
  "crlf_readers rd1 rd2 = (unread rd2 = crlf (unread rd1) \<and> fin rd2 = fin rd1)"

lemma crlf_step: "crlf_readers rd1 rd2 \<Longrightarrow> sim_step crlf_readers rd1 rd2"
proof -
  assume q: "crlf_readers rd1 rd2"
  then have u: "unread rd2 = crlf (unread rd1)" and f: "fin rd2 = fin rd1"
    by (simp_all add: crlf_readers_def)
  have peek: "map_sum id (\<lambda>c. c = SP) (Peek1 rd1) = map_sum id (\<lambda>c. c = SP) (Peek1 rd2)"
  proof (cases "unread rd1")
    case Nil
    with u f show ?thesis by (simp add: Peek1_def)
  next
    case (Cons c cs)
    with u show ?thesis
      by (cases "c = LF") (simp_all add: Peek1_def)
  qed
  show ?thesis
  proof (cases "LF \<in> set (unread rd1)")
    case False
    then have "unread rd2 = unread rd1"
      using u by (simp add: crlf_no_LF)
    with f have "rd2 = rd1"
      by simp
    moreover have "crlf_readers (rd1\<lparr>unread := []\<rparr>) (rd1\<lparr>unread := []\<rparr>)"
      by (simp add: crlf_readers_def)
    ultimately show ?thesis
      using False peek by (simp add: sim_step_def ReadBytes_last)
  next
    case True
    then obtain l rest where s: "unread rd1 = l @ LF # rest" and l: "LF \<notin> set l"
      by (meson split_list_first)
    then have "unread rd2 = (l @ [CR]) @ LF # crlf rest"
      using u by (simp add: crlf_no_LF)
    moreover have "LF \<notin> set (l @ [CR])"
      using l by simp
    ultimately have r2: "ReadBytes rd2 LF = ((l @ [CR]) @ [LF], None, rd2\<lparr>unread := crlf rest\<rparr>)"
      by (intro ReadBytes_line)
    have r1: "ReadBytes rd1 LF = (l @ [LF], None, rd1\<lparr>unread := rest\<rparr>)"
      using l s by (rule ReadBytes_line)
    have t1: "TrimRight (l @ [LF]) [CR, LF] = TrimRight l [CR, LF]"
      "TrimRight (l @ [CR, LF]) [CR, LF] = TrimRight l [CR, LF]"
      by (simp_all add: TrimRight_append_cut)
    have t2: "TrimRight (TrimLeft (l @ [LF]) [SP]) [CR, LF] = TrimRight (TrimLeft l [SP]) [CR, LF]"
      "TrimRight (TrimLeft (l @ [CR, LF]) [SP]) [CR, LF] = TrimRight (TrimLeft l [SP]) [CR, LF]"
      by (simp_all add: trims_append_cut)
    have "crlf_readers (rd1\<lparr>unread := rest\<rparr>) (rd2\<lparr>unread := crlf rest\<rparr>)"
      using f by (simp add: crlf_readers_def)
    then show ?thesis
      using peek r1 r2 t1 t2 by (simp add: sim_step_def)
  qed
qed

lemma Parse_loop_crlf:
  "Parse_loop (mkP (crlf s) f n) result cur = Parse_loop (mkP s f n) result cur"
proof -
  have "sim_parsers crlf_readers (mkP s f n) (mkP (crlf s) f n)"
    by (simp add: sim_parsers_def crlf_readers_def)
  with crlf_step have "Parse_loop (mkP s f n) result cur = Parse_loop (mkP (crlf s) f n) result cur"
    by (rule Parse_loop_sim)
  then show ?thesis by simp
qed

subsection \<open>The newline after the last line\<close>

text \<open>A line has text when it holds a byte other than space, CR and LF.\<close>

definition has_text :: "string \<Rightarrow> bool" where
  "has_text l = (\<exists>c \<in> set l. c \<noteq> SP \<and> c \<noteq> CR \<and> c \<noteq> LF)"

definition final_newline_readers :: "Reader \<Rightarrow> Reader \<Rightarrow> bool" where
  "final_newline_readers rd1 rd2 =
     (rd1 = rd2 \<or>
      (fin rd1 = EOF \<and> fin rd2 = EOF \<and>
       (\<exists>s l. unread rd1 = s @ l \<and> unread rd2 = s @ l @ [LF] \<and> LF \<notin> set l \<and> has_text l)))"

lemma in_set_TrimLeft: "c \<in> set x \<Longrightarrow> c \<notin> set cs \<Longrightarrow> c \<in> set (TrimLeft x cs)"
proof -
  assume a: "c \<in> set x" "c \<notin> set cs"
  have "set x = set (takeWhile (\<lambda>c. c \<in> set cs) x) \<union> set (dropWhile (\<lambda>c. c \<in> set cs) x)"
    by (metis set_append takeWhile_dropWhile_id)
  moreover have "c \<notin> set (takeWhile (\<lambda>c. c \<in> set cs) x)"
    using a(2) by (auto dest: set_takeWhileD)
  ultimately show ?thesis
    using a(1) by (simp add: TrimLeft_def)
qed

lemma has_text_trims:
  assumes "has_text l"
  shows "TrimRight (s @ l) [CR, LF] \<noteq> []" and "TrimRight (TrimLeft (s @ l) [SP]) [CR, LF] \<noteq> []"
proof -
  from assms obtain c where c: "c \<in> set l" "c \<noteq> SP" "c \<noteq> CR" "c \<noteq> LF"
    by (auto simp: has_text_def)
  then show "TrimRight (s @ l) [CR, LF] \<noteq> []"
    by (auto simp: TrimRight_eq_Nil_iff)
  from c have "c \<in> set (TrimLeft (s @ l) [SP])"
    by (intro in_set_TrimLeft) auto
  with c show "TrimRight (TrimLeft (s @ l) [SP]) [CR, LF] \<noteq> []"
    by (auto simp: TrimRight_eq_Nil_iff)
qed

lemma sim_step_refl:
  assumes "\<And>rd. Q rd rd"
  shows "sim_step Q rd rd"
  using assms by (cases "ReadBytes rd LF") (simp add: sim_step_def)

lemma final_newline_step:
  "final_newline_readers rd1 rd2 \<Longrightarrow> sim_step final_newline_readers rd1 rd2"
proof -
  assume q: "final_newline_readers rd1 rd2"
  show ?thesis
  proof (cases "rd1 = rd2")
    case True
    then show ?thesis
      by (simp add: sim_step_refl final_newline_readers_def)
  next
    case False
    with q obtain s l where f: "fin rd1 = EOF" "fin rd2 = EOF"
      and u1: "unread rd1 = s @ l" and u2: "unread rd2 = s @ l @ [LF]"
      and l: "LF \<notin> set l" "has_text l"
      by (auto simp: final_newline_readers_def)
    from l(2) have "l \<noteq> []"
      by (auto simp: has_text_def)
    then have "s @ l \<noteq> []" by simp
    then obtain c cs where cs: "s @ l = c # cs"
      by (cases "s @ l") auto
    then have peek: "Peek1 rd1 = Inr c" "Peek1 rd2 = Inr c"
      using u1 u2 by (simp_all add: Peek1_def flip: append_assoc)
    show ?thesis
    proof (cases "LF \<in> set s")
      case True
      then obtain a s' where s: "s = a @ LF # s'" and a: "LF \<notin> set a"
        by (meson split_list_first)
      have r1: "ReadBytes rd1 LF = (a @ [LF], None, rd1\<lparr>unread := s' @ l\<rparr>)"
        using a u1 s by (intro ReadBytes_line) auto
      have r2: "ReadBytes rd2 LF = (a @ [LF], None, rd2\<lparr>unread := s' @ l @ [LF]\<rparr>)"
        using a u2 s by (intro ReadBytes_line) auto
      have "final_newline_readers (rd1\<lparr>unread := s' @ l\<rparr>) (rd2\<lparr>unread := s' @ l @ [LF]\<rparr>)"
        using f l by (auto simp: final_newline_readers_def)
      then show ?thesis
        using peek r1 r2 by (simp add: sim_step_def)
    next
      case False
      with l(1) have n: "LF \<notin> set (s @ l)"
        by simp
      then have r1: "ReadBytes rd1 LF = (s @ l, Some EOF, rd1\<lparr>unread := []\<rparr>)"
        using ReadBytes_last [of LF rd1] u1 f by simp
      have "unread rd2 = (s @ l) @ LF # []"
        using u2 by simp
      with n have r2: "ReadBytes rd2 LF = ((s @ l) @ [LF], None, rd2\<lparr>unread := []\<rparr>)"
        by (rule ReadBytes_line)
      have eq: "rd1\<lparr>unread := []\<rparr> = rd2\<lparr>unread := []\<rparr>"
        using f by (cases rd1, cases rd2) simp
      have t: "TrimRight ((s @ l) @ [LF]) [CR, LF] = TrimRight (s @ l) [CR, LF]"
        "TrimRight (TrimLeft ((s @ l) @ [LF]) [SP]) [CR, LF] = TrimRight (TrimLeft (s @ l) [SP]) [CR, LF]"
        by (simp_all add: TrimRight_append_cut trims_append_cut del: append_assoc)
      show ?thesis
        using peek r1 r2 eq t has_text_trims [OF l(2), of s]
        by (simp add: sim_step_def read_stops_def final_newline_readers_def del: append_assoc)
    qed
  qed
qed

lemma Parse_loop_final_newline:
  assumes "LF \<notin> set l" and "has_text l"
  shows "Parse_loop (mkP (s @ l @ [LF]) EOF n) result cur = Parse_loop (mkP (s @ l) EOF n) result cur"
proof -
  have "sim_parsers final_newline_readers (mkP (s @ l) EOF n) (mkP (s @ l @ [LF]) EOF n)"
    using assms by (auto simp: sim_parsers_def final_newline_readers_def)
  with final_newline_step
  have "Parse_loop (mkP (s @ l) EOF n) result cur = Parse_loop (mkP (s @ l @ [LF]) EOF n) result cur"
    by (rule Parse_loop_sim)
  then show ?thesis by simp
qed

subsection \<open>The report format\<close>

text \<open>A report as the grammar of the specification (section 6) writes it: the header
  fields, an optional Slaves section, and the Alternative blocks, each after some blank
  lines. \<open>render\<close> writes the report with LF line endings and a newline after every
  line; its first argument is the line that opens a Slaves section, \<^verbatim>\<open>Slaves: \<close> as in the
  grammar or \<^verbatim>\<open>Slaves:\<close> as the tool prints it.\<close>

type_synonym slave_lines = "(string \<times> string) list"

record alt_text =
  blanks_before :: nat
  alt_path :: string
  alt_priority :: int
  alt_slaves :: "slave_lines option"

record report_text =
  rep_name :: string
  rep_link :: string
  rep_slaves :: "slave_lines option"
  rep_status :: string
  rep_best :: string
  rep_value :: string
  rep_alts :: "alt_text list"

definition key_line :: "string \<Rightarrow> string \<Rightarrow> string" where
  "key_line k v = k @ '': '' @ v"

definition slave_text :: "string \<times> string \<Rightarrow> string" where
  "slave_text s = fst s @ SP # snd s"

definition slaves_head :: "string \<Rightarrow> bool" where
  "slaves_head h = (h = ''Slaves:'' \<or> h = ''Slaves: '')"

definition slaves_lines :: "string \<Rightarrow> slave_lines option \<Rightarrow> string list" where
  "slaves_lines h s =
     (case s of None \<Rightarrow> [] | Some sl \<Rightarrow> h # map (\<lambda>s. SP # slave_text s) sl)"

definition alt_lines :: "string \<Rightarrow> alt_text \<Rightarrow> string list" where
  "alt_lines h a =
     replicate (blanks_before a) []
     @ [key_line ''Alternative'' (alt_path a), key_line ''Priority'' (Itoa (alt_priority a))]
     @ slaves_lines h (alt_slaves a)"

definition header_lines :: "string \<Rightarrow> report_text \<Rightarrow> string list" where
  "header_lines h d =
     [key_line ''Name'' (rep_name d), key_line ''Link'' (rep_link d)]
     @ slaves_lines h (rep_slaves d)
     @ [key_line ''Status'' (rep_status d), key_line ''Best'' (rep_best d),
        key_line ''Value'' (rep_value d)]"

definition report_lines :: "string \<Rightarrow> report_text \<Rightarrow> string list" where
  "report_lines h d = header_lines h d @ concat (map (alt_lines h) (rep_alts d))"

definition unlines :: "string list \<Rightarrow> string" where
  "unlines ls = concat (map (\<lambda>l. l @ [LF]) ls)"

definition render :: "string \<Rightarrow> report_text \<Rightarrow> string" where
  "render h d = unlines (report_lines h d)"

text \<open>The tokens of the grammar: a field value holds no LF, does not start with a space
  and does not end with a CR; a slave name is not empty and holds no space, CR or LF; a
  Slaves section has at least one line; a priority fits Go's \<^verbatim>\<open>int\<close>.\<close>

definition wf_field :: "string \<Rightarrow> bool" where
  "wf_field v = (LF \<notin> set v \<and> (v = [] \<or> (hd v \<noteq> SP \<and> last v \<noteq> CR)))"

definition wf_slave :: "string \<times> string \<Rightarrow> bool" where
  "wf_slave s =
     (fst s \<noteq> [] \<and> SP \<notin> set (fst s) \<and> CR \<notin> set (fst s) \<and> LF \<notin> set (fst s) \<and>
      LF \<notin> set (snd s) \<and> (snd s = [] \<or> last (snd s) \<noteq> CR))"

definition wf_slaves :: "slave_lines option \<Rightarrow> bool" where
  "wf_slaves s = (case s of None \<Rightarrow> True | Some sl \<Rightarrow> sl \<noteq> [] \<and> list_all wf_slave sl)"

definition wf_alt :: "alt_text \<Rightarrow> bool" where
  "wf_alt a =
     (wf_field (alt_path a) \<and> - (2 ^ 63) \<le> alt_priority a \<and> alt_priority a \<le> 2 ^ 63 - 1 \<and>
      wf_slaves (alt_slaves a))"

definition wf_report :: "report_text \<Rightarrow> bool" where
  "wf_report d =
     (wf_field (rep_name d) \<and> wf_field (rep_link d) \<and> wf_slaves (rep_slaves d) \<and>
      wf_field (rep_status d) \<and> wf_field (rep_best d) \<and> wf_field (rep_value d) \<and>
      list_all wf_alt (rep_alts d))"

text \<open>The record the report denotes: every field as written; a Slaves map holds the
  lines of its section, a later line winning over an earlier one with the same name.\<close>

definition slaves_map :: "slave_lines option \<Rightarrow> (string \<rightharpoonup> string) option" where
  "slaves_map s = Some (case s of None \<Rightarrow> Map.empty | Some sl \<Rightarrow> map_of (rev sl))"

definition entry_of :: "alt_text \<Rightarrow> Alternative" where
  "entry_of a =
     \<lparr>Path = alt_path a, Priority = alt_priority a, Alternative.Slaves = slaves_map (alt_slaves a)\<rparr>"

definition record_of :: "report_text \<Rightarrow> Alternatives" where
  "record_of d =
     \<lparr>Name = rep_name d, Link = rep_link d, Slaves = slaves_map (rep_slaves d),
      Status = rep_status d, Best = rep_best d, Value = rep_value d,
      Alternatives = Some (map entry_of (rep_alts d))\<rparr>"

lemma unlines_simps [simp]:
  "unlines [] = []"
  "unlines (l # ls) = l @ LF # unlines ls"
  "unlines (a @ b) = unlines a @ unlines b"
  by (simp_all add: unlines_def)

text \<open>What may follow a complete pair: the end of the stream, or a byte other than a
  space.\<close>

definition no_cont :: "string \<Rightarrow> error \<Rightarrow> bool" where
  "no_cont rest f = ((rest = [] \<and> f = EOF) \<or> (rest \<noteq> [] \<and> hd rest \<noteq> SP))"

lemma readKeyValue_field:
  assumes "CHR '':'' \<notin> set k" "LF \<notin> set k" "wf_field v" "no_cont rest f"
  shows "readKeyValue (mkP (key_line k v @ LF # rest) f n) = Inr (k, v, mkP rest f (n + 1))"
  using readKeyValue_key_line [of k v rest f 1 0 n] assms
  by (simp add: key_line_def wf_field_def no_cont_def)

lemma slave_text_trim:
  assumes "wf_slave s"
  shows "TrimRight (TrimLeft (slave_text s) [SP]) [CR, LF] = slave_text s"
proof -
  have "hd (fst s) \<noteq> SP"
    using assms unfolding wf_slave_def by (metis hd_in_set)
  then have "hd (slave_text s) \<noteq> SP"
    using assms by (simp add: slave_text_def wf_slave_def)
  then have "TrimLeft (slave_text s) [SP] = slave_text s"
    by (intro TrimLeft_id) simp
  moreover have "snd s \<noteq> [] \<Longrightarrow> last (snd s) \<noteq> LF"
    using assms unfolding wf_slave_def by (metis last_in_set)
  then have "last (slave_text s) \<notin> set [CR, LF]"
    using assms by (auto simp: slave_text_def wf_slave_def)
  then have "TrimRight (slave_text s) [CR, LF] = slave_text s"
    by (intro TrimRight_id) blast
  ultimately show ?thesis by simp
qed

lemma slave_text_no_LF: "wf_slave s \<Longrightarrow> LF \<notin> set (slave_text s)"
  by (auto simp: slave_text_def wf_slave_def)

lemma slave_text_nonempty: "slave_text s \<noteq> []"
  by (simp add: slave_text_def)

lemma cont_slaves:
  assumes "list_all wf_slave sl" and "v \<noteq> []" and "no_cont rest f"
  shows "readKeyValue_cont v (mkP (unlines (map (\<lambda>s. SP # slave_text s) sl) @ rest) f n)
         = Inr (v @ concat (map (\<lambda>s. LF # slave_text s) sl), mkP rest f (n + int (length sl)))"
  using assms
proof (induction sl arbitrary: v n)
  case Nil
  then show ?case
    using cont_stop [of rest f v n] by (simp add: no_cont_def)
next
  case (Cons s sl)
  from Cons.prems have s: "wf_slave s" and sl: "list_all wf_slave sl"
    by simp_all
  have "readKeyValue_cont v
          (mkP (SP # slave_text s @ LF # unlines (map (\<lambda>s. SP # slave_text s) sl) @ rest) f n)
      = readKeyValue_cont (v @ LF # slave_text s)
          (mkP (unlines (map (\<lambda>s. SP # slave_text s) sl) @ rest) f (n + 1))"
    using cont_line [OF slave_text_no_LF [OF s], of v _ f n] Cons.prems(2)
    by (simp add: slave_text_trim [OF s])
  also have "\<dots> = Inr ((v @ LF # slave_text s) @ concat (map (\<lambda>s. LF # slave_text s) sl),
                        mkP rest f (n + 1 + int (length sl)))"
    using sl Cons.prems(3) by (intro Cons.IH) simp_all
  finally show ?case
    by (simp add: add.assoc)
qed

definition join_slaves :: "slave_lines \<Rightarrow> string" where
  "join_slaves sl =
     (case sl of [] \<Rightarrow> [] | s # ss \<Rightarrow> slave_text s @ concat (map (\<lambda>s. LF # slave_text s) ss))"

lemma readKeyValue_slaves:
  assumes "slaves_head h" and "wf_slaves (Some sl)" and "no_cont rest f"
  shows "readKeyValue (mkP (unlines (slaves_lines h (Some sl)) @ rest) f n)
         = Inr (''Slaves'', join_slaves sl, mkP rest f (n + 1 + int (length sl)))"
proof -
  from assms(2) obtain s ss where sl: "sl = s # ss" and s: "wf_slave s" and ss: "list_all wf_slave ss"
    by (cases sl) (auto simp: wf_slaves_def)
  let ?after = "unlines (map (\<lambda>s. SP # slave_text s) ss) @ rest"
  from assms(1) have h: "LF \<notin> set h" "TrimRight h [CR, LF] = h"
    and split: "\<exists>t. SplitN2 h (CHR '':'') = [''Slaves'', t] \<and> TrimRight (TrimLeft t [SP]) [CR, LF] = []"
    by (auto simp: slaves_head_def TrimRight_def TrimLeft_def SplitN2_def)
  then obtain t where split: "SplitN2 h (CHR '':'') = [''Slaves'', t]"
    and trim: "TrimRight (TrimLeft t [SP]) [CR, LF] = []"
    by auto
  from assms(1) have "h \<noteq> []"
    by (auto simp: slaves_head_def)
  then have seek: "readKeyValue_seek (mkP (h @ LF # SP # slave_text s @ LF # ?after) f n)
      = Inr (h, mkP (SP # slave_text s @ LF # ?after) f (n + 1))"
    using seek_line [of h "SP # slave_text s @ LF # ?after" f n] h by simp
  have "readKeyValue_cont [] (mkP (SP # slave_text s @ LF # ?after) f (n + 1))
      = readKeyValue_cont (slave_text s) (mkP ?after f (n + 1 + 1))"
    using cont_line [OF slave_text_no_LF [OF s], of "[]" ?after f "n + 1"]
    by (simp add: slave_text_trim [OF s])
  also have "\<dots> = Inr (slave_text s @ concat (map (\<lambda>s. LF # slave_text s) ss),
                        mkP rest f (n + 1 + 1 + int (length ss)))"
    using ss assms(3) by (intro cont_slaves) (simp_all add: slave_text_nonempty)
  finally have cont: "readKeyValue_cont [] (mkP (SP # slave_text s @ LF # ?after) f (n + 1))
      = Inr (join_slaves sl, mkP rest f (n + 1 + int (length sl)))"
    by (simp add: join_slaves_def sl add.assoc)
  show ?thesis
    using seek split trim cont
    by (simp add: readKeyValue_def slaves_lines_def sl)
qed

lemma Split_no_sep: "sep \<notin> set a \<Longrightarrow> Split a sep = [a]"
  by (induction a) auto

lemma Split_first: "sep \<notin> set a \<Longrightarrow> Split (a @ sep # b) sep = a # Split b sep"
  by (induction a) auto

lemma Split_join:
  assumes "list_all wf_slave ss" and "LF \<notin> set a"
  shows "Split (a @ concat (map (\<lambda>s. LF # slave_text s) ss)) LF = a # map slave_text ss"
  using assms
proof (induction ss arbitrary: a)
  case Nil
  then show ?case by (simp add: Split_no_sep)
next
  case (Cons s ss)
  then have "Split (slave_text s @ concat (map (\<lambda>s. LF # slave_text s) ss)) LF
      = slave_text s # map slave_text ss"
    by (intro Cons.IH) (simp_all add: slave_text_no_LF)
  with Cons.prems(2) show ?case
    by (simp add: Split_first)
qed

lemma SplitN2_slave_text: "wf_slave s \<Longrightarrow> SplitN2 (slave_text s) SP = [fst s, snd s]"
  unfolding slave_text_def by (rule SplitN2_first) (simp add: wf_slave_def)

lemma parseSlaves_loop_slaves:
  "list_all wf_slave sl \<Longrightarrow>
   parseSlaves_loop ln m (map slave_text sl) = Inr (m ++ map_of (rev sl))"
proof (induction sl arbitrary: m)
  case Nil
  show ?case by simp
next
  case (Cons s sl)
  then have "parseSlaves_loop ln m (map slave_text (s # sl))
      = parseSlaves_loop ln (m(fst s \<mapsto> snd s)) (map slave_text sl)"
    by (simp add: SplitN2_slave_text)
  also have "\<dots> = Inr (m(fst s \<mapsto> snd s) ++ map_of (rev sl))"
    using Cons by simp
  also have "m(fst s \<mapsto> snd s) ++ map_of (rev sl) = m ++ map_of (rev (s # sl))"
    by (cases s) (simp add: map_add_upd_left fun_eq_iff map_add_def split: option.splits)
  finally show ?case .
qed

lemma parseSlaves_join:
  assumes "wf_slaves (Some sl)"
  shows "parseSlaves r (join_slaves sl) = Inr (map_of (rev sl))"
proof -
  from assms obtain s ss where sl: "sl = s # ss" and s: "wf_slave s" and ss: "list_all wf_slave ss"
    by (cases sl) (auto simp: wf_slaves_def)
  have "Split (join_slaves sl) LF = map slave_text sl"
    using Split_join [OF ss slave_text_no_LF [OF s]] by (simp add: join_slaves_def sl)
  moreover have "list_all wf_slave sl"
    using s ss sl by simp
  ultimately show ?thesis
    by (simp add: parseSlaves_def parseSlaves_loop_slaves)
qed


lemma no_cont_simps [simp]:
  "no_cont [] EOF"
  "no_cont (LF # rest) f"
  "k \<noteq> [] \<Longrightarrow> hd k \<noteq> SP \<Longrightarrow> no_cont (key_line k v @ rest) f"
  by (simp_all add: no_cont_def key_line_def)

lemma Parse_loop_field:
  assumes "CHR '':'' \<notin> set k" "LF \<notin> set k" "wf_field v" "no_cont rest f"
    and "Parse_step (mkP rest f (n + 1)) k v result cur = Inr (result', cur')"
  shows "Parse_loop (mkP (key_line k v @ LF # rest) f n) result cur
         = Parse_loop (mkP rest f (n + 1)) result' cur'"
  using Parse_loop_pair [OF readKeyValue_field [OF assms(1-4), of n], of result cur] assms(5)
  by simp

lemma Parse_loop_slaves:
  assumes "slaves_head h" and "wf_slaves s" and "no_cont rest f"
  shows "Parse_loop (mkP (unlines (slaves_lines h s) @ rest) f n) result None
         = Parse_loop (mkP rest f (n + int (length (slaves_lines h s))))
             (case s of None \<Rightarrow> result | Some sl \<Rightarrow> result\<lparr>Slaves := Some (map_of (rev sl))\<rparr>) None"
    and "Parse_loop (mkP (unlines (slaves_lines h s) @ rest) f n) result (Some a)
         = Parse_loop (mkP rest f (n + int (length (slaves_lines h s)))) result
             (Some (case s of None \<Rightarrow> a
                    | Some sl \<Rightarrow> a\<lparr>Alternative.Slaves := Some (map_of (rev sl))\<rparr>))"
proof -
  show "Parse_loop (mkP (unlines (slaves_lines h s) @ rest) f n) result None
         = Parse_loop (mkP rest f (n + int (length (slaves_lines h s))))
             (case s of None \<Rightarrow> result | Some sl \<Rightarrow> result\<lparr>Slaves := Some (map_of (rev sl))\<rparr>) None"
  proof (cases s)
    case None
    then show ?thesis by (simp add: slaves_lines_def)
  next
    case (Some sl)
    with assms(2) have w: "wf_slaves (Some sl)" by simp
    have len: "int (length (slaves_lines h (Some sl))) = 1 + int (length sl)"
      by (simp add: slaves_lines_def)
    show ?thesis
      unfolding Some
      by (subst Parse_loop_pair [OF readKeyValue_slaves [OF assms(1) w assms(3)]])
        (simp add: Parse_step_def parseSlaves_join [OF w] len add.assoc)
  qed
  show "Parse_loop (mkP (unlines (slaves_lines h s) @ rest) f n) result (Some a)
         = Parse_loop (mkP rest f (n + int (length (slaves_lines h s)))) result
             (Some (case s of None \<Rightarrow> a
                    | Some sl \<Rightarrow> a\<lparr>Alternative.Slaves := Some (map_of (rev sl))\<rparr>))"
  proof (cases s)
    case None
    then show ?thesis by (simp add: slaves_lines_def)
  next
    case (Some sl)
    with assms(2) have w: "wf_slaves (Some sl)" by simp
    have len: "int (length (slaves_lines h (Some sl))) = 1 + int (length sl)"
      by (simp add: slaves_lines_def)
    show ?thesis
      unfolding Some
      by (subst Parse_loop_pair [OF readKeyValue_slaves [OF assms(1) w assms(3)]])
        (simp add: Parse_step_def parseSlaves_join [OF w] len add.assoc)
  qed
qed

definition header_record :: "report_text \<Rightarrow> Alternatives" where
  "header_record d = (record_of d)\<lparr>Alternatives := Some []\<rparr>"

lemma no_cont_slaves_lines:
  "slaves_head h \<Longrightarrow> no_cont rest f \<Longrightarrow> no_cont (unlines (slaves_lines h s) @ rest) f"
  by (cases s) (auto simp: slaves_lines_def slaves_head_def no_cont_def)

lemma Parse_loop_header:
  assumes "slaves_head h" and "wf_report d" and "no_cont rest EOF"
  shows "Parse_loop (mkP (unlines (header_lines h d) @ rest) EOF n) newAlternatives None
         = Parse_loop (mkP rest EOF (n + int (length (header_lines h d)))) (header_record d) None"
proof -
  let ?v = "key_line ''Value'' (rep_value d) @ LF # rest"
  let ?b = "key_line ''Best'' (rep_best d) @ LF # ?v"
  let ?s = "key_line ''Status'' (rep_status d) @ LF # ?b"
  let ?sl = "unlines (slaves_lines h (rep_slaves d)) @ ?s"
  let ?l = "key_line ''Link'' (rep_link d) @ LF # ?sl"
  let ?k = "length (slaves_lines h (rep_slaves d))"
  let ?r1 = "newAlternatives\<lparr>Name := rep_name d\<rparr>"
  let ?r2 = "?r1\<lparr>Link := rep_link d\<rparr>"
  let ?r3 = "case rep_slaves d of None \<Rightarrow> ?r2 | Some sl \<Rightarrow> ?r2\<lparr>Slaves := Some (map_of (rev sl))\<rparr>"
  let ?r4 = "?r3\<lparr>Status := rep_status d\<rparr>"
  let ?r5 = "?r4\<lparr>Best := rep_best d\<rparr>"
  let ?r6 = "?r5\<lparr>Value := rep_value d\<rparr>"
  from assms(2) have w: "wf_field (rep_name d)" "wf_field (rep_link d)" "wf_slaves (rep_slaves d)"
    "wf_field (rep_status d)" "wf_field (rep_best d)" "wf_field (rep_value d)"
    by (simp_all add: wf_report_def)
  have "Parse_loop (mkP (key_line ''Name'' (rep_name d) @ LF # ?l) EOF n) newAlternatives None
      = Parse_loop (mkP ?l EOF (n + 1)) ?r1 None"
    using w(1) by (intro Parse_loop_field) (simp_all add: Parse_step_def)
  also have "\<dots> = Parse_loop (mkP ?sl EOF (n + 1 + 1)) ?r2 None"
    using w(2) assms(1) by (intro Parse_loop_field no_cont_slaves_lines) (simp_all add: Parse_step_def)
  also have "\<dots> = Parse_loop (mkP ?s EOF (n + 1 + 1 + int ?k)) ?r3 None"
    using assms(1) w(3) by (intro Parse_loop_slaves) simp_all
  also have "\<dots> = Parse_loop (mkP ?b EOF (n + 1 + 1 + int ?k + 1)) ?r4 None"
    using w(4) by (intro Parse_loop_field) (simp_all add: Parse_step_def)
  also have "\<dots> = Parse_loop (mkP ?v EOF (n + 1 + 1 + int ?k + 1 + 1)) ?r5 None"
    using w(5) by (intro Parse_loop_field) (simp_all add: Parse_step_def)
  also have "\<dots> = Parse_loop (mkP rest EOF (n + 1 + 1 + int ?k + 1 + 1 + 1)) ?r6 None"
    using w(6) assms(3) by (intro Parse_loop_field) (simp_all add: Parse_step_def)
  also have "?r6 = header_record d"
    by (simp add: header_record_def record_of_def newAlternatives_def slaves_map_def split: option.splits)
  finally show ?thesis
    by (simp add: header_lines_def add.assoc)
qed


lemma Itoa_chars: "c \<in> set (Itoa n) \<Longrightarrow> isDigit c \<or> c = CHR ''-''"
  using decimal_digits [of "nat n"] decimal_digits [of "nat (- n)"]
  by (auto simp: Itoa_def list_all_iff split: if_splits)

lemma Itoa_nonempty: "Itoa n \<noteq> []"
  by (simp add: Itoa_def decimal_nonempty)

lemma wf_field_Itoa: "wf_field (Itoa n)"
proof -
  have "c \<noteq> LF \<and> c \<noteq> SP \<and> c \<noteq> CR" if "c \<in> set (Itoa n)" for c
    using Itoa_chars [OF that] by (auto simp: isDigit_def)
  moreover have "hd (Itoa n) \<in> set (Itoa n)" "last (Itoa n) \<in> set (Itoa n)"
    by (simp_all add: Itoa_nonempty)
  ultimately show ?thesis
    unfolding wf_field_def by blast
qed

lemma no_cont_alts: "no_cont (unlines (concat (map (alt_lines h) alts))) EOF"
proof (cases alts)
  case Nil
  then show ?thesis by simp
next
  case (Cons a as)
  then show ?thesis
    by (cases "blanks_before a") (simp_all add: alt_lines_def)
qed

lemma unlines_blanks: "unlines (replicate b []) = concat (map (\<lambda>b. b @ [LF]) (replicate b []))"
  by (simp add: unlines_def)

lemma Parse_loop_alts:
  assumes "slaves_head h" and "list_all wf_alt alts" and "Alternatives result = Some done"
  shows "Parse_loop (mkP (unlines (concat (map (alt_lines h) alts))) EOF n) result cur
         = Inr (result\<lparr>Alternatives :=
                  Some (done @ (case cur of None \<Rightarrow> [] | Some a \<Rightarrow> [a]) @ map entry_of alts)\<rparr>)"
  using assms
proof (induction alts arbitrary: n result cur "done")
  case Nil
  have "readKeyValue (mkP [] EOF n) = Inl EOF"
    by (simp add: readKeyValue_exhausted)
  then show ?case
    using Nil.prems(3)
    by (cases cur) (simp_all add: Parse_loop_end Parse_finish_def go_append_def)
next
  case (Cons a alts)
  let ?rest = "unlines (concat (map (alt_lines h) alts))"
  let ?sl = "unlines (slaves_lines h (alt_slaves a)) @ ?rest"
  let ?p = "key_line ''Priority'' (Itoa (alt_priority a)) @ LF # ?sl"
  let ?a = "key_line ''Alternative'' (alt_path a) @ LF # ?p"
  let ?b = "int (blanks_before a)"
  let ?k = "int (length (slaves_lines h (alt_slaves a)))"
  let ?res = "case cur of None \<Rightarrow> result
              | Some c \<Rightarrow> result\<lparr>Alternatives := go_append (Alternatives result) c\<rparr>"
  let ?e1 = "newAlternative\<lparr>Path := alt_path a\<rparr>"
  let ?e2 = "?e1\<lparr>Priority := alt_priority a\<rparr>"
  let ?e3 = "case alt_slaves a of None \<Rightarrow> ?e2
             | Some sl \<Rightarrow> ?e2\<lparr>Alternative.Slaves := Some (map_of (rev sl))\<rparr>"
  from Cons.prems(2) have wa: "wf_alt a" and alts: "list_all wf_alt alts"
    by simp_all
  from wa have w: "wf_field (alt_path a)" "wf_slaves (alt_slaves a)"
    and range: "- (2 ^ 63) \<le> alt_priority a \<and> alt_priority a \<le> 2 ^ 63 - 1"
    by (simp_all add: wf_alt_def)
  have nc: "no_cont ?rest EOF"
    by (rule no_cont_alts)
  have nc_sl: "no_cont ?sl EOF"
    using Cons.prems(1) nc by (rule no_cont_slaves_lines)
  have "readKeyValue (mkP (unlines (replicate (blanks_before a) []) @ ?a) EOF n)
      = readKeyValue (mkP ?a EOF (n + ?b))"
    unfolding unlines_blanks using readKeyValue_blanks [of "replicate (blanks_before a) []" ?a EOF n]
    by simp
  also have "\<dots> = Inr (''Alternative'', alt_path a, mkP ?p EOF (n + ?b + 1))"
    using w(1) by (intro readKeyValue_field) simp_all
  finally have "Parse_loop (mkP (unlines (replicate (blanks_before a) []) @ ?a) EOF n) result cur
      = Parse_loop (mkP ?p EOF (n + ?b + 1)) ?res (Some ?e1)"
    by (cases cur) (simp_all add: Parse_loop_pair Parse_step_def)
  also have "\<dots> = Parse_loop (mkP ?sl EOF (n + ?b + 1 + 1)) ?res (Some ?e2)"
  proof (rule Parse_loop_field)
    show "wf_field (Itoa (alt_priority a))"
      by (rule wf_field_Itoa)
    show "Parse_step (mkP ?sl EOF (n + ?b + 1 + 1)) ''Priority'' (Itoa (alt_priority a)) ?res (Some ?e1)
        = Inr (?res, Some ?e2)"
      using range by (simp add: Parse_step_def Atoi_Itoa)
  qed (simp_all add: nc_sl)
  also have "\<dots> = Parse_loop (mkP ?rest EOF (n + ?b + 1 + 1 + ?k)) ?res (Some ?e3)"
    using Cons.prems(1) w(2) nc by (rule Parse_loop_slaves(2))
  also have "?e3 = entry_of a"
    by (simp add: entry_of_def newAlternative_def slaves_map_def split: option.splits)
  also have "Parse_loop (mkP ?rest EOF (n + ?b + 1 + 1 + ?k)) ?res (Some (entry_of a))
      = Inr (?res\<lparr>Alternatives :=
                Some ((done @ (case cur of None \<Rightarrow> [] | Some c \<Rightarrow> [c]))
                      @ (case Some (entry_of a) of None \<Rightarrow> [] | Some c \<Rightarrow> [c]) @ map entry_of alts)\<rparr>)"
    using alts Cons.prems(1,3) by (intro Cons.IH) (simp_all add: go_append_def split: option.splits)
  finally show ?case
    by (simp add: alt_lines_def split: option.splits)
qed


lemma ParseString_render:
  assumes "slaves_head h" and "wf_report d"
  shows "ParseString (render h d) = Inr (record_of d)"
proof -
  let ?rest = "unlines (concat (map (alt_lines h) (rep_alts d)))"
  have "ParseString (render h d) = Parse_loop (mkP (unlines (header_lines h d) @ ?rest) EOF 0) newAlternatives None"
    by (simp add: ParseString_eq render_def report_lines_def)
  also have "\<dots> = Parse_loop (mkP ?rest EOF (0 + int (length (header_lines h d)))) (header_record d) None"
    using assms no_cont_alts by (rule Parse_loop_header)
  also have "\<dots> = Inr ((header_record d)\<lparr>Alternatives :=
      Some ([] @ (case None of None \<Rightarrow> [] | Some a \<Rightarrow> [a]) @ map entry_of (rep_alts d))\<rparr>)"
    using assms by (intro Parse_loop_alts) (simp_all add: wf_report_def header_record_def)
  also have "\<dots> = Inr (record_of d)"
    by (simp add: header_record_def record_of_def)
  finally show ?thesis .
qed

definition text_line :: "string \<Rightarrow> bool" where
  "text_line l = (LF \<notin> set l \<and> has_text l)"

lemma text_line_key: "LF \<notin> set k \<Longrightarrow> wf_field v \<Longrightarrow> text_line (key_line k v)"
  by (auto simp: text_line_def key_line_def wf_field_def has_text_def)

lemma text_line_slave: "wf_slave s \<Longrightarrow> text_line (SP # slave_text s)"
proof -
  assume w: "wf_slave s"
  then have "hd (fst s) \<in> set (fst s)"
    by (simp add: wf_slave_def)
  with w have "hd (fst s) \<noteq> SP \<and> hd (fst s) \<noteq> CR \<and> hd (fst s) \<noteq> LF"
    unfolding wf_slave_def by metis
  moreover have "hd (fst s) \<in> set (SP # slave_text s)"
    using w by (simp add: slave_text_def wf_slave_def)
  ultimately have "has_text (SP # slave_text s)"
    unfolding has_text_def by blast
  with w show ?thesis
    by (simp add: text_line_def slave_text_no_LF)
qed

lemma last_slaves_lines:
  "wf_slaves (Some sl) \<Longrightarrow> text_line (last (slaves_lines h (Some sl)))"
proof -
  assume w: "wf_slaves (Some sl)"
  then have ne: "sl \<noteq> []" and all: "list_all wf_slave sl"
    by (simp_all add: wf_slaves_def)
  then have "wf_slave (last sl)"
    by (simp add: list_all_iff)
  moreover have "last (slaves_lines h (Some sl)) = SP # slave_text (last sl)"
    using ne by (simp add: slaves_lines_def last_map)
  ultimately show ?thesis
    by (simp add: text_line_slave)
qed

lemma last_alt_lines: "wf_alt a \<Longrightarrow> alt_lines h a \<noteq> [] \<and> text_line (last (alt_lines h a))"
proof (cases "alt_slaves a")
  case None
  then show ?thesis
    by (simp add: alt_lines_def slaves_lines_def text_line_key wf_field_Itoa)
next
  case (Some sl)
  assume "wf_alt a"
  with Some have "wf_slaves (Some sl)"
    by (simp add: wf_alt_def)
  then have "text_line (last (slaves_lines h (Some sl)))"
    by (rule last_slaves_lines)
  moreover have "slaves_lines h (Some sl) \<noteq> []"
    by (simp add: slaves_lines_def)
  ultimately show ?thesis
    using Some by (simp add: alt_lines_def)
qed

lemma last_report_lines:
  assumes "wf_report d"
  shows "report_lines h d \<noteq> [] \<and> text_line (last (report_lines h d))"
proof (cases "rep_alts d" rule: rev_cases)
  case Nil
  with assms show ?thesis
    by (simp add: report_lines_def header_lines_def text_line_key wf_report_def)
next
  case (snoc as a)
  with assms have "wf_alt a"
    by (simp add: wf_report_def)
  then have "alt_lines h a \<noteq> [] \<and> text_line (last (alt_lines h a))"
    by (rule last_alt_lines)
  with snoc show ?thesis
    by (simp add: report_lines_def)
qed

lemma unlines_snoc: "ls \<noteq> [] \<Longrightarrow> unlines ls = unlines (butlast ls) @ last ls @ [LF]"
  by (cases ls rule: rev_cases) simp_all

lemma render_last_line:
  assumes "wf_report d"
  obtains s l where "render h d = s @ l @ [LF]" and "LF \<notin> set l" and "has_text l"
  using last_report_lines [OF assms, of h] unlines_snoc [of "report_lines h d"]
  by (auto simp: render_def text_line_def)

lemma ParseString_render_all:
  assumes "slaves_head h" and "wf_report d"
    and "input = render h d \<or> input @ [LF] = render h d
       \<or> input = crlf (render h d) \<or> input @ [CR, LF] = crlf (render h d)"
  shows "ParseString input = Inr (record_of d)"
proof -
  obtain s l where r: "render h d = s @ l @ [LF]" and l: "LF \<notin> set l" "has_text l"
    using assms(2) by (rule render_last_line)
  have full: "ParseString (s @ l @ [LF]) = Inr (record_of d)"
    using ParseString_render [OF assms(1,2)] r by simp
  then have cut: "ParseString (s @ l) = Inr (record_of d)"
    using Parse_loop_final_newline [OF l, of s 0 newAlternatives None]
    by (simp add: ParseString_eq)
  have c: "crlf (render h d) = crlf (s @ l) @ [CR, LF]"
    using r by simp
  from assms(3) consider "input = s @ l @ [LF]" | "input = s @ l"
    | "input = crlf (s @ l @ [LF])" | "input = crlf (s @ l)"
    using r c by auto
  then show ?thesis
  proof cases
    case 1
    with full show ?thesis by simp
  next
    case 2
    with cut show ?thesis by simp
  next
    case 3
    with full show ?thesis
      by (simp only: ParseString_eq Parse_loop_crlf)
  next
    case 4
    with cut show ?thesis
      by (simp only: ParseString_eq Parse_loop_crlf)
  qed
qed

subsection \<open>The pairs the reader yields\<close>

text \<open>The pairs that successive calls of \<^verbatim>\<open>readKeyValue\<close> yield, up to the first call
  that returns an error (\<^verbatim>\<open>io.EOF\<close> included), and among them the values of the
  \<^verbatim>\<open>Alternative\<close> keys, in the order read.\<close>

function readKeyValues :: "Parser \<Rightarrow> (string \<times> string) list" where
  "readKeyValues r =
     (case readKeyValue r of
        Inl e \<Rightarrow> []
      | Inr (k, v, r') \<Rightarrow> (k, v) # readKeyValues r')"
  by pat_completeness auto

termination readKeyValues
proof (relation "measure (\<lambda>r. length (unread (R r)))", goal_cases)
  case 1
  show ?case by simp
next
  case (2 r kvr k vr v r')
  then have "readKeyValue r = Inr (k, v, r')"
    by simp
  then have "length (unread (R r')) < length (unread (R r))"
    by (rule readKeyValue_shorter)
  then show ?case by simp
qed

declare readKeyValues.simps [simp del]

definition alternative_values :: "(string \<times> string) list \<Rightarrow> string list" where
  "alternative_values kvs = map snd (filter (\<lambda>kv. fst kv = ''Alternative'') kvs)"

definition paths_so_far :: "Alternatives \<Rightarrow> Alternative option \<Rightarrow> string list" where
  "paths_so_far result cur =
     map Path (case Alternatives result of None \<Rightarrow> [] | Some xs \<Rightarrow> xs)
     @ (case cur of None \<Rightarrow> [] | Some a \<Rightarrow> [Path a])"

lemma Parse_step_paths:
  assumes "Parse_step r k v result cur = Inr (result', cur')"
  shows "paths_so_far result' cur'
         = paths_so_far result cur @ (if k = ''Alternative'' then [v] else [])"
    and "Alternatives result \<noteq> None \<Longrightarrow> Alternatives result' \<noteq> None"
  using assms
  by (auto simp: Parse_step_def paths_so_far_def go_append_def newAlternative_def
      split: option.splits if_splits sum.splits)

lemma Parse_finish_paths:
  "Alternatives result \<noteq> None \<Longrightarrow>
   \<exists>alts. Alternatives (Parse_finish result cur) = Some alts \<and> map Path alts = paths_so_far result cur"
  by (auto simp: Parse_finish_def paths_so_far_def go_append_def split: option.splits)

lemma Parse_loop_paths:
  "Parse_loop r result cur = Inr rec \<Longrightarrow> Alternatives result \<noteq> None \<Longrightarrow>
   \<exists>alts. Alternatives rec = Some alts \<and>
          map Path alts = paths_so_far result cur @ alternative_values (readKeyValues r)"
proof (induction r result cur rule: Parse_loop.induct)
  case (1 r result cur)
  show ?case
  proof (cases "readKeyValue r")
    case (Inl e)
    with "1.prems"(1) have "rec = Parse_finish result cur"
      by (simp add: Parse_loop.simps [of r] split: if_splits)
    moreover from Inl have "readKeyValues r = []"
      by (simp add: readKeyValues.simps [of r])
    ultimately show ?thesis
      using Parse_finish_paths [OF "1.prems"(2), of cur] by (simp add: alternative_values_def)
  next
    case (Inr a)
    obtain k v r' where a: "a = (k, v, r')"
      by (cases a) auto
    with Inr "1.prems"(1) obtain result' cur' where
      st: "Parse_step r' k v result cur = Inr (result', cur')"
      and loop: "Parse_loop r' result' cur' = Inr rec"
      by (auto simp: Parse_loop.simps [of r] split: sum.splits)
    from Parse_step_paths [OF st] "1.prems"(2)
    have p: "paths_so_far result' cur'
        = paths_so_far result cur @ (if k = ''Alternative'' then [v] else [])"
      and some: "Alternatives result' \<noteq> None"
      by simp_all
    have "\<exists>alts. Alternatives rec = Some alts \<and>
          map Path alts = paths_so_far result' cur' @ alternative_values (readKeyValues r')"
      using Inr a st loop some by (intro "1.IH") auto
    moreover have "readKeyValues r = (k, v) # readKeyValues r'"
      using Inr a by (simp add: readKeyValues.simps [of r])
    ultimately show ?thesis
      using p by (auto simp: alternative_values_def)
  qed
qed

subsection \<open>The example of the tests\<close>

text \<open>The input of the test \<^verbatim>\<open>valid input\<close> and of the README, as a report and as
  text.\<close>

definition java_report :: report_text where
  "java_report =
     \<lparr>rep_name = ''java'', rep_link = ''/usr/bin/java'',
      rep_slaves = Some [(''java.1.gz'', ''/usr/share/man/man1/java.1.gz'')],
      rep_status = ''auto'',
      rep_best = ''/usr/lib/jvm/java-21-openjdk-amd64/bin/java'',
      rep_value = ''/usr/lib/jvm/java-21-openjdk-amd64/bin/java'',
      rep_alts =
        [\<lparr>blanks_before = 1, alt_path = ''/usr/lib/jvm/java-21-openjdk-amd64/bin/java'',
          alt_priority = 2111,
          alt_slaves = Some
            [(''java.1.gz'', ''/usr/lib/jvm/java-21-openjdk-amd64/man/man1/java.1.gz''),
             (''java.ja.1.gz'', ''/usr/lib/jvm/java-21-openjdk-amd64/man/ja/man1/java.1.gz'')]\<rparr>,
         \<lparr>blanks_before = 1, alt_path = ''/usr/lib/jvm/java-8-openjdk-amd64/jre/bin/java'',
          alt_priority = 1081,
          alt_slaves = Some
            [(''java.1.gz'', ''/usr/lib/jvm/java-8-openjdk-amd64/jre/man/man1/java.1.gz'')]\<rparr>]\<rparr>"

definition java_text :: string where
  "java_text = ''Name: java\<newline>Link: /usr/bin/java\<newline>Slaves:\<newline> java.1.gz /usr/share/man/man1/java.1.gz\<newline>Status: auto\<newline>Best: /usr/lib/jvm/java-21-openjdk-amd64/bin/java\<newline>Value: /usr/lib/jvm/java-21-openjdk-amd64/bin/java\<newline>\<newline>Alternative: /usr/lib/jvm/java-21-openjdk-amd64/bin/java\<newline>Priority: 2111\<newline>Slaves:\<newline> java.1.gz /usr/lib/jvm/java-21-openjdk-amd64/man/man1/java.1.gz\<newline> java.ja.1.gz /usr/lib/jvm/java-21-openjdk-amd64/man/ja/man1/java.1.gz\<newline>\<newline>Alternative: /usr/lib/jvm/java-8-openjdk-amd64/jre/bin/java\<newline>Priority: 1081\<newline>Slaves:\<newline> java.1.gz /usr/lib/jvm/java-8-openjdk-amd64/jre/man/man1/java.1.gz\<newline>''"

lemma wf_java: "wf_report java_report"
  by (simp add: java_report_def wf_report_def wf_field_def wf_slaves_def wf_slave_def wf_alt_def)

lemma render_java: "render ''Slaves:'' java_report = java_text"
  by code_simp

lemma ParseString_java: "ParseString java_text = Inr (record_of java_report)"
  using ParseString_render_all [OF _ wf_java, of "''Slaves:''" java_text] render_java
  by (simp add: slaves_head_def)

text \<open>A report as \<^verbatim>\<open>update-alternatives --query editor\<close> prints it when the
  alternative \<^verbatim>\<open>/bin/ed\<close> provides none of the slaves of the group: the tool writes the
  line \<^verbatim>\<open>Slaves:\<close> in every block of a group that has slaves, and no line under it for
  such an alternative. \<open>editor_blocks\<close> is the part after the header and its blank line.\<close>

definition editor_text :: string where
  "editor_text = ''Name: editor\<newline>Link: /usr/bin/editor\<newline>Slaves:\<newline> editor.1.gz /usr/share/man/man1/editor.1.gz\<newline>Status: auto\<newline>Best: /bin/nano\<newline>Value: /bin/nano\<newline>\<newline>Alternative: /bin/ed\<newline>Priority: -100\<newline>Slaves:\<newline>\<newline>Alternative: /bin/nano\<newline>Priority: 40\<newline>Slaves:\<newline> editor.1.gz /usr/share/man/man1/nano.1.gz\<newline>''"

definition editor_header :: report_text where
  "editor_header =
     \<lparr>rep_name = ''editor'', rep_link = ''/usr/bin/editor'',
      rep_slaves = Some [(''editor.1.gz'', ''/usr/share/man/man1/editor.1.gz'')],
      rep_status = ''auto'', rep_best = ''/bin/nano'', rep_value = ''/bin/nano'',
      rep_alts = []\<rparr>"

definition editor_blocks :: string where
  "editor_blocks = ''Alternative: /bin/ed\<newline>Priority: -100\<newline>Slaves:\<newline>\<newline>Alternative: /bin/nano\<newline>Priority: 40\<newline>Slaves:\<newline> editor.1.gz /usr/share/man/man1/nano.1.gz\<newline>''"

lemma Parse_loop_empty_slaves:
  assumes "readKeyValue r = Inr (''Slaves'', [], r')"
  shows "Parse_loop r result cur = Inl (ParseError ''malformed slaves line'' (lineNo r'))"
  using assms
  by (cases cur) (simp_all add: Parse_loop_pair Parse_step_def parseSlaves_def SplitN2_def)

lemma editor_text_split:
  "editor_text = unlines (header_lines ''Slaves:'' editor_header) @ LF # editor_blocks"
  by code_simp

lemma wf_editor_header: "wf_report editor_header"
  by (simp add: editor_header_def wf_report_def wf_field_def wf_slaves_def wf_slave_def)

text \<open>The input of the test \<^verbatim>\<open>valid input without new line at the end\<close>: the header
  alone, with no newline after its last line.\<close>

definition java_header_text :: string where
  "java_header_text = ''Name: java\<newline>Link: /usr/bin/java\<newline>Slaves:\<newline> java.1.gz /usr/share/man/man1/java.1.gz\<newline>Status: auto\<newline>Best: /usr/lib/jvm/java-21-openjdk-amd64/bin/java\<newline>Value: /usr/lib/jvm/java-21-openjdk-amd64/bin/java''"

lemma render_java_header:
  "render ''Slaves:'' (java_report\<lparr>rep_alts := []\<rparr>) = java_header_text @ [LF]"
  by code_simp

lemma final_line_newline:
  "CHR '':'' \<in> set l \<and> LF \<notin> set l \<longrightarrow> ParseString (s @ l) = ParseString (s @ l @ [LF])"
proof
  assume a: "CHR '':'' \<in> set l \<and> LF \<notin> set l"
  then have "has_text l"
    unfolding has_text_def by (intro bexI [of _ "CHR '':''"]) simp_all
  with a show "ParseString (s @ l) = ParseString (s @ l @ [LF])"
    by (simp add: ParseString_eq Parse_loop_final_newline)
qed

lemma final_pair_read:
  "CHR '':'' \<notin> set k \<and> LF \<notin> set k \<and> wf_field v \<longrightarrow>
   readKeyValue (mkP (key_line k v) EOF n) = Inr (k, v, mkP [] EOF (n + 1))"
  using readKeyValue_key_line_last [of k v 1 0 n]
  by (simp add: key_line_def wf_field_def)

lemma header_only_no_newline:
  "slaves_head h \<and> wf_report d \<and> rep_alts d = [] \<and> input @ [LF] = render h d \<longrightarrow>
   ParseString input = Inr (record_of d) \<and> Alternatives (record_of d) = Some []"
proof
  assume a: "slaves_head h \<and> wf_report d \<and> rep_alts d = [] \<and> input @ [LF] = render h d"
  then have h: "slaves_head h" and w: "wf_report d" and e: "rep_alts d = []"
    and i: "input @ [LF] = render h d"
    by blast+
  have "input = render h d \<or> input @ [LF] = render h d
       \<or> input = crlf (render h d) \<or> input @ [CR, LF] = crlf (render h d)"
    by (rule disjI2, rule disjI1) (rule i)
  with h w have "ParseString input = Inr (record_of d)"
    by (rule ParseString_render_all)
  moreover from e have "Alternatives (record_of d) = Some []"
    by (simp add: record_of_def)
  ultimately show "ParseString input = Inr (record_of d) \<and> Alternatives (record_of d) = Some []"
    by (rule conjI)
qed

lemma end_of_stream_normal:
  "readKeyValue r = Inl EOF \<longrightarrow> Parse_loop r result cur = Inr (Parse_finish result cur)"
  by (simp add: Parse_loop_end)

lemma report_no_newline:
  "slaves_head h \<and> wf_report d \<and> input @ [LF] = render h d \<longrightarrow>
   ParseString input = Inr (record_of d)"
proof
  assume a: "slaves_head h \<and> wf_report d \<and> input @ [LF] = render h d"
  then have h: "slaves_head h" and w: "wf_report d" and i: "input @ [LF] = render h d"
    by blast+
  have "input = render h d \<or> input @ [LF] = render h d
       \<or> input = crlf (render h d) \<or> input @ [CR, LF] = crlf (render h d)"
    by (rule disjI2, rule disjI1) (rule i)
  with h w show "ParseString input = Inr (record_of d)"
    by (rule ParseString_render_all)
qed

lemma end_of_stream_append:
  "readKeyValue r = Inl EOF \<longrightarrow>
     Parse_loop r result None = Inr result
     \<and> Parse_loop r result (Some alt)
         = Inr (result\<lparr>Alternatives :=
             Some ((case Alternatives result of None \<Rightarrow> [] | Some es \<Rightarrow> es) @ [alt])\<rparr>)"
  by (simp add: Parse_loop_end Parse_finish_def go_append_def split: option.splits)

lemma final_pair_step:
  "readKeyValue r = Inr (k, v, r') \<and> readKeyValue r' = Inl EOF
     \<and> Parse_step r' k v result cur = Inr (result', cur') \<longrightarrow>
   Parse_loop r result cur
     = Inr (case cur' of
              None \<Rightarrow> result'
            | Some a \<Rightarrow> result'\<lparr>Alternatives :=
                Some ((case Alternatives result' of None \<Rightarrow> [] | Some es \<Rightarrow> es) @ [a])\<rparr>)"
  by (simp add: Parse_loop_pair Parse_loop_end Parse_finish_def go_append_def split: option.splits)

lemma readKeyValue_final_line:
  assumes "CHR '':'' \<notin> set k" "LF \<notin> set k" "wf_field v"
  shows "readKeyValue (mkP (key_line k v) EOF n) = Inr (k, v, mkP [] EOF (n + 1))"
  using final_pair_read [of k v n] assms by simp

lemma final_priority_line:
  "- (2 ^ 63) \<le> n \<and> n \<le> 2 ^ 63 - 1 \<longrightarrow>
   Parse_loop (mkP (key_line ''Priority'' (Itoa n)) EOF m) result (Some alt)
     = Inr (result\<lparr>Alternatives :=
         Some ((case Alternatives result of None \<Rightarrow> [] | Some es \<Rightarrow> es)
               @ [alt\<lparr>Priority := n\<rparr>])\<rparr>)"
proof
  assume n: "- (2 ^ 63) \<le> n \<and> n \<le> 2 ^ 63 - 1"
  have 1: "readKeyValue (mkP (key_line ''Priority'' (Itoa n)) EOF m)
      = Inr (''Priority'', Itoa n, mkP [] EOF (m + 1))"
    by (rule readKeyValue_final_line) (simp_all add: wf_field_Itoa)
  have 2: "readKeyValue (mkP [] EOF (m + 1)) = Inl EOF"
    by (simp add: readKeyValue_exhausted)
  from n show "Parse_loop (mkP (key_line ''Priority'' (Itoa n)) EOF m) result (Some alt)
     = Inr (result\<lparr>Alternatives :=
         Some ((case Alternatives result of None \<Rightarrow> [] | Some es \<Rightarrow> es)
               @ [alt\<lparr>Priority := n\<rparr>])\<rparr>)"
    by (simp add: Parse_loop_pair [OF 1] Parse_step_def Atoi_Itoa Parse_loop_end [OF 2]
        Parse_finish_def go_append_def split: option.splits)
qed

lemma final_value_line:
  "wf_field v \<longrightarrow>
   Parse_loop (mkP (key_line ''Value'' v) EOF m) result None = Inr (result\<lparr>Value := v\<rparr>)"
proof
  assume v: "wf_field v"
  have 1: "readKeyValue (mkP (key_line ''Value'' v) EOF m) = Inr (''Value'', v, mkP [] EOF (m + 1))"
    by (rule readKeyValue_final_line) (simp_all add: v)
  have 2: "readKeyValue (mkP [] EOF (m + 1)) = Inl EOF"
    by (simp add: readKeyValue_exhausted)
  show "Parse_loop (mkP (key_line ''Value'' v) EOF m) result None = Inr (result\<lparr>Value := v\<rparr>)"
    by (simp add: Parse_loop_pair [OF 1] Parse_step_def Parse_loop_end [OF 2] Parse_finish_def)
qed

lemma java_text_last: "butlast java_text @ [LF] = java_text"
  by code_simp

section \<open>The claims\<close>

subsection \<open>C3: parseSlaves on the empty string\<close>

text \<open>C3. The claim is that \<^verbatim>\<open>parseSlaves\<close> returns an empty mapping and no error for the
  empty string. The code does the opposite, for every parser state: \<^verbatim>\<open>strings.Split\<close> of
  the empty string is one empty piece, that piece holds no space, and the call fails with
  the malformed-slaves-line error carrying the parser's current line number. The empty
  value is what \<^verbatim>\<open>readKeyValue\<close> yields for a \<^verbatim>\<open>Slaves:\<close> line with no line under it, so
  the report \<open>editor_text\<close> is not parsed: \<^verbatim>\<open>ParseString\<close> returns that error at line 11,
  the \<^verbatim>\<open>Slaves:\<close> line of \<^verbatim>\<open>/bin/ed\<close>, and no record.\<close>

theorem parseSlaves_empty_fails:
  "parseSlaves r [] = Inl (ParseError ''malformed slaves line'' (lineNo r))
   \<and> ParseString editor_text = Inl (ParseError ''malformed slaves line'' 11)"
proof -
  let ?hd = "header_record editor_header"
  have len: "int (length (header_lines ''Slaves:'' editor_header)) = 7"
    by (simp add: header_lines_def slaves_lines_def editor_header_def)
  have "Parse_loop (mkP (unlines (header_lines ''Slaves:'' editor_header) @ LF # editor_blocks) EOF 0)
          newAlternatives None
      = Parse_loop (mkP (LF # editor_blocks) EOF (0 + int (length (header_lines ''Slaves:'' editor_header))))
          ?hd None"
    by (rule Parse_loop_header) (simp_all add: slaves_head_def wf_editor_header)
  then have 1: "ParseString editor_text = Parse_loop (mkP (LF # editor_blocks) EOF 7) ?hd None"
    by (simp only: ParseString_eq editor_text_split len) simp
  have 2: "readKeyValue (mkP (LF # editor_blocks) EOF 7) = readKeyValue (mkP editor_blocks EOF 8)"
    using readKeyValue_blanks [of "[[]]" editor_blocks EOF 7] by simp
  have 3: "readKeyValue (mkP editor_blocks EOF 8)
      = Inr (''Alternative'', ''/bin/ed'',
          mkP ''Priority: -100\<newline>Slaves:\<newline>\<newline>Alternative: /bin/nano\<newline>Priority: 40\<newline>Slaves:\<newline> editor.1.gz /usr/share/man/man1/nano.1.gz\<newline>'' EOF 9)"
    using readKeyValue_key_line [of "''Alternative''" "''/bin/ed''"
        "''Priority: -100\<newline>Slaves:\<newline>\<newline>Alternative: /bin/nano\<newline>Priority: 40\<newline>Slaves:\<newline> editor.1.gz /usr/share/man/man1/nano.1.gz\<newline>''" EOF 1 0 8]
    by (simp add: editor_blocks_def)
  have 4: "readKeyValue (mkP ''Priority: -100\<newline>Slaves:\<newline>\<newline>Alternative: /bin/nano\<newline>Priority: 40\<newline>Slaves:\<newline> editor.1.gz /usr/share/man/man1/nano.1.gz\<newline>'' EOF 9)
      = Inr (''Priority'', ''-100'',
          mkP ''Slaves:\<newline>\<newline>Alternative: /bin/nano\<newline>Priority: 40\<newline>Slaves:\<newline> editor.1.gz /usr/share/man/man1/nano.1.gz\<newline>'' EOF 10)"
    using readKeyValue_key_line [of "''Priority''" "''-100''"
        "''Slaves:\<newline>\<newline>Alternative: /bin/nano\<newline>Priority: 40\<newline>Slaves:\<newline> editor.1.gz /usr/share/man/man1/nano.1.gz\<newline>''" EOF 1 0 9]
    by simp
  have 5: "readKeyValue (mkP ''Slaves:\<newline>\<newline>Alternative: /bin/nano\<newline>Priority: 40\<newline>Slaves:\<newline> editor.1.gz /usr/share/man/man1/nano.1.gz\<newline>'' EOF 10)
      = Inr (''Slaves'', [],
          mkP ''\<newline>Alternative: /bin/nano\<newline>Priority: 40\<newline>Slaves:\<newline> editor.1.gz /usr/share/man/man1/nano.1.gz\<newline>'' EOF 11)"
    using readKeyValue_key_line [of "''Slaves''" "[]"
        "''\<newline>Alternative: /bin/nano\<newline>Priority: 40\<newline>Slaves:\<newline> editor.1.gz /usr/share/man/man1/nano.1.gz\<newline>''" EOF 0 0 10]
    by simp
  have a: "Atoi ''-100'' = Some (- 100)"
    by (simp add: Atoi_def isDigit_def digits_val_def)
  have "Parse_loop (mkP (LF # editor_blocks) EOF 7) ?hd None
      = Parse_loop (mkP ''Priority: -100\<newline>Slaves:\<newline>\<newline>Alternative: /bin/nano\<newline>Priority: 40\<newline>Slaves:\<newline> editor.1.gz /usr/share/man/man1/nano.1.gz\<newline>'' EOF 9)
          ?hd (Some (newAlternative\<lparr>Path := ''/bin/ed''\<rparr>))"
    using 3 by (simp add: Parse_loop.simps [of "mkP (LF # editor_blocks) EOF 7"] 2 Parse_step_def)
  also have "\<dots> = Parse_loop (mkP ''Slaves:\<newline>\<newline>Alternative: /bin/nano\<newline>Priority: 40\<newline>Slaves:\<newline> editor.1.gz /usr/share/man/man1/nano.1.gz\<newline>'' EOF 10)
          ?hd (Some (newAlternative\<lparr>Path := ''/bin/ed'', Priority := - 100\<rparr>))"
    by (simp add: Parse_loop_pair [OF 4] Parse_step_def a)
  also have "\<dots> = Inl (ParseError ''malformed slaves line'' 11)"
    using Parse_loop_empty_slaves [OF 5] by simp
  finally have "Parse_loop (mkP (LF # editor_blocks) EOF 7) ?hd None
      = Inl (ParseError ''malformed slaves line'' 11)" .
  with 1 have t: "ParseString editor_text = Inl (ParseError ''malformed slaves line'' 11)"
    by simp
  have e: "parseSlaves r [] = Inl (ParseError ''malformed slaves line'' (lineNo r))"
    by (simp add: parseSlaves_def SplitN2_def)
  from e t show ?thesis
    by (rule conjI)
qed

subsection \<open>C10: the empty input\<close>

text \<open>C10. Parsing the empty string, or any input made of blank lines only (nothing
  but CR and LF bytes), succeeds: every string field of the record is empty, the Slaves
  map is present and empty, and the Alternatives sequence is present and empty. No header
  field has to be there.\<close>

theorem ParseString_blank_input:
  "ParseString [] =
     Inr \<lparr>Name = [], Link = [], Slaves = Some Map.empty, Status = [], Best = [], Value = [],
          Alternatives = Some []\<rparr> \<and>
   (set s \<subseteq> {CR, LF} \<longrightarrow>
    ParseString s =
     Inr \<lparr>Name = [], Link = [], Slaves = Some Map.empty, Status = [], Best = [], Value = [],
          Alternatives = Some []\<rparr>)"
proof -
  have "ParseString s = Inr newAlternatives" if "set s \<subseteq> {CR, LF}" for s
    using that
    by (simp add: ParseString_eq Parse_loop_end readKeyValue_exhausted Parse_finish_def)
  from this [of "[]"] this [of s] show ?thesis
    by (simp add: newAlternatives_def)
qed

text \<open>The instance of C10 at an LF line followed by a CRLF line.\<close>

theorem ParseString_blank_input_witness:
  "set [LF, CR, LF] \<subseteq> {CR, LF} \<and>
   ParseString [LF, CR, LF] =
     Inr \<lparr>Name = [], Link = [], Slaves = Some Map.empty, Status = [], Best = [], Value = [],
          Alternatives = Some []\<rparr>"
  using ParseString_blank_input [of "[LF, CR, LF]"] by simp

subsection \<open>C5: a first line without a colon\<close>

text \<open>C5. Let the input start with any number of blank lines (each nothing but CR
  bytes before its LF), followed by a line that is not blank and holds no colon; the line
  ends the input or is followed by an LF and anything. Then parsing fails with the
  malformed-line error whose line number is the 1-based number of that line, and no
  record is returned (the result is the error alone).\<close>

theorem Parse_malformed_line:
  assumes "\<forall>b\<in>set bs. set b \<subseteq> {CR}"
    and "CHR '':'' \<notin> set l" and "LF \<notin> set l" and "TrimRight l [CR, LF] \<noteq> []"
    and "rest = [] \<or> hd rest = LF"
  shows "ParseString (concat (map (\<lambda>b. b @ [LF]) bs) @ l @ rest)
         = Inl (ParseError ''malformed line'' (int (length bs) + 1))"
proof -
  from assms(5) have "(rest = [] \<and> EOF = EOF) \<or> (rest \<noteq> [] \<and> hd rest = LF)"
    by auto
  then have "readKeyValue (mkP (l @ rest) EOF (0 + int (length bs)))
      = Inl (ParseError ''malformed line'' (0 + int (length bs) + 1))"
    by (rule readKeyValue_no_colon [OF assms(2,3,4)])
  then have "readKeyValue (mkP (concat (map (\<lambda>b. b @ [LF]) bs) @ l @ rest) EOF 0)
      = Inl (ParseError ''malformed line'' (int (length bs) + 1))"
    using assms(1) by (simp add: readKeyValue_blanks)
  then show ?thesis
    by (simp add: ParseString_eq Parse_loop_error)
qed

text \<open>The instance of C5 at an LF blank line, a CRLF blank line, an error message of
  the tool, and a further line: the error is at line 3.\<close>

theorem Parse_malformed_line_witness:
  "ParseString (''\<newline>'' @ [CR, LF] @ ''no alternatives for java'' @ ''\<newline>Name: java'')
     = Inl (ParseError ''malformed line'' 3)"
  using Parse_malformed_line [of "[[], [CR]]" "''no alternatives for java''" "''\<newline>Name: java''"]
  by (simp add: TrimRight_def)

subsection \<open>C4: the value of a key line\<close>

text \<open>C4, amended. For a key line \<^verbatim>\<open>Key:<spaces><text><CRs>\<close>, where the key holds no
  colon, the text does not start with a space, does not end with a CR and holds no LF, and
  the line ends the input or is followed by a line that does not start with a space, the
  value read is the text: all the spaces after the colon are removed, however many there
  are, and all the trailing CR bytes.\<close>

theorem readKeyValue_value_trim:
  assumes "CHR '':'' \<notin> set k" and "LF \<notin> set k"
    and "LF \<notin> set body" and "body = [] \<or> (hd body \<noteq> SP \<and> last body \<noteq> CR)"
    and "rest = [] \<or> hd rest \<noteq> SP"
  shows "readKeyValue
           (NewParser (strings_NewReader
              (k @ CHR '':'' # replicate i SP @ body @ replicate j CR @ LF # rest)))
         = Inr (k, body, \<lparr>R = strings_NewReader rest, lineNo = 1\<rparr>)
       \<and> readKeyValue
           (NewParser (strings_NewReader (k @ CHR '':'' # replicate i SP @ body @ replicate j CR)))
         = Inr (k, body, \<lparr>R = strings_NewReader [], lineNo = 1\<rparr>)"
proof -
  from assms(5) have "(rest = [] \<and> EOF = EOF) \<or> (rest \<noteq> [] \<and> hd rest \<noteq> SP)"
    by auto
  from readKeyValue_key_line [OF assms(1-4) this, of i j 0]
    readKeyValue_key_line_last [OF assms(1-4), of i j 0]
  show ?thesis
    by (simp add: NewParser_def strings_NewReader_def)
qed

text \<open>The instance of C4 (amended) at three spaces after the colon and a CRLF line
  ending, and at the same line ending the input with a CR.\<close>

theorem readKeyValue_value_trim_witness:
  "readKeyValue (NewParser (strings_NewReader (''Name:   java home'' @ [CR, LF] @ ''Link: x'')))
     = Inr (''Name'', ''java home'', \<lparr>R = strings_NewReader ''Link: x'', lineNo = 1\<rparr>)
   \<and> readKeyValue (NewParser (strings_NewReader (''Name:   java home'' @ [CR])))
     = Inr (''Name'', ''java home'', \<lparr>R = strings_NewReader [], lineNo = 1\<rparr>)"
  using readKeyValue_value_trim [of "''Name''" "''java home''" "''Link: x''" 3 1]
  by (simp add: numeral_3_eq_3)

text \<open>C4 as stated (exactly one space is removed, so two spaces after the colon leave
  one in the value) fails: for \<^verbatim>\<open>Name:  java\<close> the value read is \<^verbatim>\<open>java\<close>, with no
  leading space.\<close>

theorem readKeyValue_two_spaces_counterexample:
  "readKeyValue (NewParser (strings_NewReader ''Name:  java''))
     = Inr (''Name'', ''java'', \<lparr>R = strings_NewReader [], lineNo = 1\<rparr>)"
  using readKeyValue_key_line_last [of "''Name''" "''java''" 2 0 0]
  by (simp add: NewParser_def strings_NewReader_def numeral_2_eq_2)

subsection \<open>C7: a key in the wrong state\<close>

text \<open>C7. Whenever the next pair the reader yields has a key the current state does not
  accept, parsing fails with the unexpected-key error that names the key and carries the
  line counter as it stands after the pair was read, and no record is returned: in the
  header state (no current alternative) this is every key other than Name, Link, Slaves,
  Status, Best, Value and Alternative, so Priority among them; within an alternative it is
  every key other than Priority, Slaves and Alternative.\<close>

theorem Parse_unexpected_key:
  assumes "readKeyValue r = Inr (k, v, r')"
  shows "(k \<notin> {''Name'', ''Link'', ''Slaves'', ''Status'', ''Best'', ''Value'', ''Alternative''} \<longrightarrow>
          Parse_loop r result None = Inl (ParseError (''unexpected key: '' @ k) (lineNo r')))
       \<and> (k \<notin> {''Priority'', ''Slaves'', ''Alternative''} \<longrightarrow>
          Parse_loop r result (Some alt) = Inl (ParseError (''unexpected key: '' @ k) (lineNo r')))"
  using assms by (simp add: Parse_loop_pair Parse_step_def)

text \<open>The instances of C7 at a Priority line before any Alternative line, and at a
  Status line inside an Alternative block.\<close>

theorem Parse_unexpected_key_witness:
  "ParseString ''Priority: 10'' = Inl (ParseError ''unexpected key: Priority'' 1)
   \<and> ParseString ''Alternative: /bin/ed\<newline>Status: auto''
      = Inl (ParseError ''unexpected key: Status'' 2)"
proof -
  have 1: "readKeyValue (mkP ''Priority: 10'' EOF 0) = Inr (''Priority'', ''10'', mkP [] EOF 1)"
    using readKeyValue_key_line_last [of "''Priority''" "''10''" 1 0 0] by simp
  have 2: "readKeyValue (mkP ''Alternative: /bin/ed\<newline>Status: auto'' EOF 0)
      = Inr (''Alternative'', ''/bin/ed'', mkP ''Status: auto'' EOF 1)"
    using readKeyValue_key_line [of "''Alternative''" "''/bin/ed''" "''Status: auto''" EOF 1 0 0] by simp
  have 3: "readKeyValue (mkP ''Status: auto'' EOF 1) = Inr (''Status'', ''auto'', mkP [] EOF 2)"
    using readKeyValue_key_line_last [of "''Status''" "''auto''" 1 0 1] by simp
  have "Parse_loop (mkP ''Alternative: /bin/ed\<newline>Status: auto'' EOF 0) newAlternatives None
      = Parse_loop (mkP ''Status: auto'' EOF 1) newAlternatives
          (Some (newAlternative\<lparr>Path := ''/bin/ed''\<rparr>))"
    by (simp add: Parse_loop_pair [OF 2] Parse_step_def)
  with Parse_unexpected_key [OF 1, of newAlternatives]
    Parse_unexpected_key [OF 3, of newAlternatives "newAlternative\<lparr>Path := ''/bin/ed''\<rparr>"]
  show ?thesis
    by (simp add: ParseString_eq)
qed

subsection \<open>C6: the Priority value\<close>

text \<open>C6, amended. Whenever the parser, inside an Alternative block, reads a Priority pair
  whose value is not an integer as text (an optional sign followed by one or more decimal
  digits), parsing fails with the invalid-priority error carrying the line counter, and
  no record is returned. Conversely a value that is an integer as text, a negative one
  included, is stored as the entry's Priority and parsing goes on, provided the integer
  fits Go's \<^verbatim>\<open>int\<close> (\<open>- (2 ^ 63) \<le> n \<le> 2 ^ 63 - 1\<close>); when it does not fit, parsing fails
  with the same invalid-priority error. In particular this holds for the decimal text
  \<^verbatim>\<open>strconv.Itoa\<close> writes for an integer \<open>n\<close>.\<close>

theorem Parse_priority:
  assumes "readKeyValue r = Inr (''Priority'', v, r')"
  shows "(\<not> is_int_syntax v \<longrightarrow>
            Parse_loop r result (Some alt)
              = Inl (ParseError ''invalid priority value'' (lineNo r')))
       \<and> (is_int_syntax v \<longrightarrow>
            (if - (2 ^ 63) \<le> int_of_text v \<and> int_of_text v \<le> 2 ^ 63 - 1
             then Parse_step r' ''Priority'' v result (Some alt)
                    = Inr (result, Some (alt\<lparr>Priority := int_of_text v\<rparr>))
                \<and> Parse_loop r result (Some alt)
                    = Parse_loop r' result (Some (alt\<lparr>Priority := int_of_text v\<rparr>))
             else Parse_loop r result (Some alt)
                    = Inl (ParseError ''invalid priority value'' (lineNo r'))))
       \<and> (v = Itoa n \<longrightarrow>
            (if - (2 ^ 63) \<le> n \<and> n \<le> 2 ^ 63 - 1
             then Parse_step r' ''Priority'' v result (Some alt)
                    = Inr (result, Some (alt\<lparr>Priority := n\<rparr>))
                \<and> Parse_loop r result (Some alt)
                    = Parse_loop r' result (Some (alt\<lparr>Priority := n\<rparr>))
             else Parse_loop r result (Some alt)
                    = Inl (ParseError ''invalid priority value'' (lineNo r'))))"
  using assms by (simp add: Parse_loop_pair Parse_step_def Atoi_bad_syntax Atoi_Itoa Atoi_syntax)

text \<open>The instances of C6 (amended) at the value \<^verbatim>\<open>abc\<close>, which fails at line 2, at the
  values \<^verbatim>\<open>-12\<close> and \<^verbatim>\<open>+7\<close>, which are stored as -12 and 7, and at the value
  \<^verbatim>\<open>+99999999999999999999\<close>, which fails.\<close>

theorem Parse_priority_witness:
  "ParseString ''Alternative: a\<newline>Priority: abc'' = Inl (ParseError ''invalid priority value'' 2)
   \<and> Parse_loop (mkP ''Priority: -12'' EOF 1) newAlternatives (Some (newAlternative\<lparr>Path := ''a''\<rparr>))
     = Parse_loop (mkP [] EOF 2) newAlternatives (Some (newAlternative\<lparr>Path := ''a'', Priority := - 12\<rparr>))
   \<and> Parse_loop (mkP ''Priority: +7'' EOF 1) newAlternatives (Some (newAlternative\<lparr>Path := ''a''\<rparr>))
     = Parse_loop (mkP [] EOF 2) newAlternatives (Some (newAlternative\<lparr>Path := ''a'', Priority := 7\<rparr>))
   \<and> Parse_loop (mkP ''Priority: +99999999999999999999'' EOF 1) newAlternatives
         (Some (newAlternative\<lparr>Path := ''a''\<rparr>))
     = Inl (ParseError ''invalid priority value'' 2)"
proof -
  let ?alt = "newAlternative\<lparr>Path := ''a''\<rparr>"
  have 1: "readKeyValue (mkP ''Alternative: a\<newline>Priority: abc'' EOF 0)
      = Inr (''Alternative'', ''a'', mkP ''Priority: abc'' EOF 1)"
    using readKeyValue_key_line [of "''Alternative''" "''a''" "''Priority: abc''" EOF 1 0 0] by simp
  have 2: "readKeyValue (mkP ''Priority: abc'' EOF 1) = Inr (''Priority'', ''abc'', mkP [] EOF 2)"
    using readKeyValue_key_line_last [of "''Priority''" "''abc''" 1 0 1] by simp
  have 3: "readKeyValue (mkP ''Priority: -12'' EOF 1) = Inr (''Priority'', ''-12'', mkP [] EOF 2)"
    using readKeyValue_key_line_last [of "''Priority''" "''-12''" 1 0 1] by simp
  have 4: "readKeyValue (mkP ''Priority: +7'' EOF 1) = Inr (''Priority'', ''+7'', mkP [] EOF 2)"
    using readKeyValue_key_line_last [of "''Priority''" "''+7''" 1 0 1] by simp
  have 5: "readKeyValue (mkP ''Priority: +99999999999999999999'' EOF 1)
      = Inr (''Priority'', ''+99999999999999999999'', mkP [] EOF 2)"
    using readKeyValue_key_line_last [of "''Priority''" "''+99999999999999999999''" 1 0 1] by simp
  have s: "\<not> is_int_syntax ''abc''" "is_int_syntax ''-12''" "is_int_syntax ''+7''"
    "is_int_syntax ''+99999999999999999999''"
    by (simp_all add: is_int_syntax_def)
  have v: "int_of_text ''-12'' = - 12" "int_of_text ''+7'' = 7"
    "int_of_text ''+99999999999999999999'' = 99999999999999999999"
    by (simp_all add: int_of_text_def)
  have "Parse_loop (mkP ''Alternative: a\<newline>Priority: abc'' EOF 0) newAlternatives None
      = Parse_loop (mkP ''Priority: abc'' EOF 1) newAlternatives (Some ?alt)"
    by (simp add: Parse_loop_pair [OF 1] Parse_step_def)
  with Parse_priority [OF 2, of newAlternatives ?alt 0]
  have a: "ParseString ''Alternative: a\<newline>Priority: abc''
      = Inl (ParseError ''invalid priority value'' 2)"
    using s(1) by (simp add: ParseString_eq)
  from Parse_priority [OF 3, of newAlternatives ?alt 0]
  have b: "Parse_loop (mkP ''Priority: -12'' EOF 1) newAlternatives (Some ?alt)
      = Parse_loop (mkP [] EOF 2) newAlternatives (Some (?alt\<lparr>Priority := - 12\<rparr>))"
    using s(2) v(1) by simp
  from Parse_priority [OF 4, of newAlternatives ?alt 0]
  have c: "Parse_loop (mkP ''Priority: +7'' EOF 1) newAlternatives (Some ?alt)
      = Parse_loop (mkP [] EOF 2) newAlternatives (Some (?alt\<lparr>Priority := 7\<rparr>))"
    using s(3) v(2) by simp
  from Parse_priority [OF 5, of newAlternatives ?alt 0]
  have d: "Parse_loop (mkP ''Priority: +99999999999999999999'' EOF 1) newAlternatives (Some ?alt)
      = Inl (ParseError ''invalid priority value'' 2)"
    using s(4) v(3) by simp
  from a b c d show ?thesis
    by simp
qed

text \<open>C6 as stated (every syntactically valid integer is stored) fails at a value of
  twenty nines: it is a well-formed decimal integer, it does not fit \<^verbatim>\<open>int\<close>, and
  \<^verbatim>\<open>Parse\<close> returns the invalid-priority error.\<close>

theorem Parse_priority_range_counterexample:
  "ParseString ''Alternative: a\<newline>Priority: 99999999999999999999''
     = Inl (ParseError ''invalid priority value'' 2)"
proof -
  have 1: "readKeyValue (mkP ''Alternative: a\<newline>Priority: 99999999999999999999'' EOF 0)
      = Inr (''Alternative'', ''a'', mkP ''Priority: 99999999999999999999'' EOF 1)"
    using readKeyValue_key_line
      [of "''Alternative''" "''a''" "''Priority: 99999999999999999999''" EOF 1 0 0] by simp
  have 2: "readKeyValue (mkP ''Priority: 99999999999999999999'' EOF 1)
      = Inr (''Priority'', ''99999999999999999999'', mkP [] EOF 2)"
    using readKeyValue_key_line_last [of "''Priority''" "''99999999999999999999''" 1 0 1] by simp
  have 3: "Atoi ''99999999999999999999'' = None"
    by (simp add: Atoi_def isDigit_def digits_val_def)
  show ?thesis
    by (simp add: ParseString_eq Parse_loop_pair [OF 1] Parse_loop_pair [OF 2] Parse_step_def 3)
qed

subsection \<open>C8: CRLF and LF inputs parse alike\<close>

text \<open>C8. For every input string \<open>s\<close>, parsing the string obtained from \<open>s\<close> by
  replacing every LF with CR LF gives the same result as parsing \<open>s\<close>: the same record
  on success, and the same error (kind, message and line number) on failure.\<close>

theorem ParseString_crlf: "ParseString (crlf s) = ParseString s"
  by (simp add: ParseString_eq Parse_loop_crlf)

subsection \<open>C1: a well-formed report parses to its fields\<close>

text \<open>C1. Let \<open>d\<close> be a report whose tokens are well formed, and let the input be \<open>d\<close> as
  the grammar writes it: with LF or with CRLF line endings throughout, with or without the
  newline after the last line, a Slaves section opened by \<^verbatim>\<open>Slaves: \<close> or \<^verbatim>\<open>Slaves:\<close>.
  Then parsing succeeds and returns the record of \<open>d\<close>: Name, Link, Status, Best and Value
  are the values written after the colon and its space, the Slaves maps hold the lines of
  their sections, and the Alternatives sequence holds one entry per block with the Path
  and the Priority written.\<close>

theorem ParseString_report:
  assumes "slaves_head h" and "wf_report d"
    and "input = render h d \<or> input @ [LF] = render h d
       \<or> input = crlf (render h d) \<or> input @ [CR, LF] = crlf (render h d)"
  shows "ParseString input = Inr (record_of d)"
  using assms by (rule ParseString_render_all)

text \<open>The instance of C1 at the input of the test \<^verbatim>\<open>valid input\<close>.\<close>

theorem ParseString_report_witness:
  "ParseString java_text =
     Inr \<lparr>Name = ''java'', Link = ''/usr/bin/java'',
          Slaves = Some [''java.1.gz'' \<mapsto> ''/usr/share/man/man1/java.1.gz''],
          Status = ''auto'',
          Best = ''/usr/lib/jvm/java-21-openjdk-amd64/bin/java'',
          Value = ''/usr/lib/jvm/java-21-openjdk-amd64/bin/java'',
          Alternatives = Some
            [\<lparr>Path = ''/usr/lib/jvm/java-21-openjdk-amd64/bin/java'', Priority = 2111,
              Alternative.Slaves = Some
                [''java.1.gz'' \<mapsto> ''/usr/lib/jvm/java-21-openjdk-amd64/man/man1/java.1.gz'',
                 ''java.ja.1.gz'' \<mapsto> ''/usr/lib/jvm/java-21-openjdk-amd64/man/ja/man1/java.1.gz'']\<rparr>,
             \<lparr>Path = ''/usr/lib/jvm/java-8-openjdk-amd64/jre/bin/java'', Priority = 1081,
              Alternative.Slaves = Some
                [''java.1.gz'' \<mapsto> ''/usr/lib/jvm/java-8-openjdk-amd64/jre/man/man1/java.1.gz'']\<rparr>]\<rparr>"
proof -
  have "record_of java_report = 
     \<lparr>Name = ''java'', Link = ''/usr/bin/java'',
          Slaves = Some [''java.1.gz'' \<mapsto> ''/usr/share/man/man1/java.1.gz''],
          Status = ''auto'',
          Best = ''/usr/lib/jvm/java-21-openjdk-amd64/bin/java'',
          Value = ''/usr/lib/jvm/java-21-openjdk-amd64/bin/java'',
          Alternatives = Some
            [\<lparr>Path = ''/usr/lib/jvm/java-21-openjdk-amd64/bin/java'', Priority = 2111,
              Alternative.Slaves = Some
                [''java.1.gz'' \<mapsto> ''/usr/lib/jvm/java-21-openjdk-amd64/man/man1/java.1.gz'',
                 ''java.ja.1.gz'' \<mapsto> ''/usr/lib/jvm/java-21-openjdk-amd64/man/ja/man1/java.1.gz'']\<rparr>,
             \<lparr>Path = ''/usr/lib/jvm/java-8-openjdk-amd64/jre/bin/java'', Priority = 1081,
              Alternative.Slaves = Some
                [''java.1.gz'' \<mapsto> ''/usr/lib/jvm/java-8-openjdk-amd64/jre/man/man1/java.1.gz'']\<rparr>]\<rparr>"
    by (simp add: record_of_def java_report_def entry_of_def slaves_map_def)
  with ParseString_report [OF _ wf_java, of "''Slaves:''" java_text] render_java show ?thesis
    by (simp add: slaves_head_def)
qed

subsection \<open>C2: the order of the Alternatives sequence\<close>

text \<open>C2. When parsing succeeds, the Alternatives sequence of the record is present
  (not nil), and the Paths of its entries are the values of the \<^verbatim>\<open>Alternative\<close> pairs the
  reader yielded, in the order read; when there was no such pair the sequence is empty.
  When the stream ends while an entry is in progress, that entry is appended as the last
  element.\<close>

theorem Parse_alternatives_order:
  "(ParseString input = Inr rec \<longrightarrow>
      (\<exists>alts. Alternatives rec = Some alts \<and>
         map Path alts
           = alternative_values (readKeyValues (NewParser (strings_NewReader input))) \<and>
         (alternative_values (readKeyValues (NewParser (strings_NewReader input))) = []
            \<longrightarrow> alts = [])))
   \<and> (readKeyValue r = Inl EOF \<and> Alternatives result = Some done \<longrightarrow>
        Parse_loop r result (Some alt) = Inr (result\<lparr>Alternatives := Some (done @ [alt])\<rparr>))"
proof (intro conjI impI)
  assume "ParseString input = Inr rec"
  then have "Parse_loop (NewParser (strings_NewReader input)) newAlternatives None = Inr rec"
    by (simp add: ParseString_def Parse_def)
  from Parse_loop_paths [OF this]
  show "\<exists>alts. Alternatives rec = Some alts \<and>
         map Path alts
           = alternative_values (readKeyValues (NewParser (strings_NewReader input))) \<and>
         (alternative_values (readKeyValues (NewParser (strings_NewReader input))) = []
            \<longrightarrow> alts = [])"
    by (auto simp: newAlternatives_def paths_so_far_def)
next
  assume "readKeyValue r = Inl EOF \<and> Alternatives result = Some done"
  then show "Parse_loop r result (Some alt) = Inr (result\<lparr>Alternatives := Some (done @ [alt])\<rparr>)"
    by (simp add: Parse_loop_end Parse_finish_def go_append_def)
qed

text \<open>The instance of C2 at the input of the test \<^verbatim>\<open>valid input\<close>, whose two blocks come
  out in their order, and at a stream that ends with an entry in progress.\<close>

theorem Parse_alternatives_order_witness:
  "alternative_values (readKeyValues (NewParser (strings_NewReader java_text)))
     = [''/usr/lib/jvm/java-21-openjdk-amd64/bin/java'',
        ''/usr/lib/jvm/java-8-openjdk-amd64/jre/bin/java'']
   \<and> Parse_loop (mkP [] EOF 3) newAlternatives (Some (newAlternative\<lparr>Path := ''/bin/ed''\<rparr>))
     = Inr (newAlternatives\<lparr>Alternatives := Some [newAlternative\<lparr>Path := ''/bin/ed''\<rparr>]\<rparr>)"
proof -
  have e: "readKeyValue (mkP [] EOF 3) = Inl EOF"
    by (simp add: readKeyValue_exhausted)
  have a: "Alternatives newAlternatives = Some []"
    by (simp add: newAlternatives_def)
  have p: "map Path (map entry_of (rep_alts java_report))
      = [''/usr/lib/jvm/java-21-openjdk-amd64/bin/java'',
         ''/usr/lib/jvm/java-8-openjdk-amd64/jre/bin/java'']"
    by (simp add: java_report_def entry_of_def)
  from Parse_alternatives_order
    [of java_text "record_of java_report" "mkP [] EOF 3" newAlternatives "[]"
       "newAlternative\<lparr>Path := ''/bin/ed''\<rparr>"]
  show ?thesis
    using ParseString_java e a p by (auto simp: record_of_def)
qed

subsection \<open>C9: no newline after the last line\<close>

text \<open>C9. An input whose last line is a key-value line (it holds a colon) without its
  newline parses exactly as the input with the newline: the last pair is read (a last line
  \<^verbatim>\<open>Key: value\<close> with no newline yields the pair and leaves the stream exhausted), so it is
  part of the result. In particular a well-formed header with no Alternative block and no
  newline after its last line parses to its record, whose Alternatives sequence is empty.
  Reading a pair from an exhausted stream reports \<^verbatim>\<open>io.EOF\<close>, and on \<^verbatim>\<open>io.EOF\<close> the
  parse ends normally with the record built so far, not with an error: the record as it
  is when no Alternative block is open, and the record with the open block's entry
  appended to its Alternatives sequence otherwise. The last pair goes through the same
  step as any other pair before that: a last line \<^verbatim>\<open>Priority: p\<close> inside a block, with no
  newline, gives the record whose last entry is the block's with Priority \<open>p\<close>; a last
  line \<^verbatim>\<open>Value: v\<close> in the header gives the record with Value \<open>v\<close>; and a well-formed
  report, Alternative blocks included, with no newline after its last line parses to its
  record.\<close>

theorem Parse_final_newline:
  "(CHR '':'' \<in> set l \<and> LF \<notin> set l \<longrightarrow> ParseString (s @ l) = ParseString (s @ l @ [LF]))
   \<and> (CHR '':'' \<notin> set k \<and> LF \<notin> set k \<and> wf_field v \<longrightarrow>
        readKeyValue (mkP (key_line k v) EOF n) = Inr (k, v, mkP [] EOF (n + 1)))
   \<and> (slaves_head h \<and> wf_report d \<and> rep_alts d = [] \<and> input @ [LF] = render h d \<longrightarrow>
        ParseString input = Inr (record_of d) \<and> Alternatives (record_of d) = Some [])
   \<and> readKeyValue (mkP [] EOF n) = Inl EOF
   \<and> (readKeyValue r = Inl EOF \<longrightarrow> Parse_loop r result cur = Inr (Parse_finish result cur))
   \<and> (readKeyValue r = Inl EOF \<longrightarrow>
        Parse_loop r result None = Inr result
        \<and> Parse_loop r result (Some alt)
            = Inr (result\<lparr>Alternatives :=
                Some ((case Alternatives result of None \<Rightarrow> [] | Some es \<Rightarrow> es) @ [alt])\<rparr>))
   \<and> (readKeyValue r1 = Inr (k1, v1, r2) \<and> readKeyValue r2 = Inl EOF
        \<and> Parse_step r2 k1 v1 result cur = Inr (result', cur') \<longrightarrow>
          Parse_loop r1 result cur
            = Inr (case cur' of
                     None \<Rightarrow> result'
                   | Some a \<Rightarrow> result'\<lparr>Alternatives :=
                       Some ((case Alternatives result' of None \<Rightarrow> [] | Some es \<Rightarrow> es) @ [a])\<rparr>))
   \<and> (- (2 ^ 63) \<le> p \<and> p \<le> 2 ^ 63 - 1 \<longrightarrow>
        Parse_loop (mkP (key_line ''Priority'' (Itoa p)) EOF n) result (Some alt)
          = Inr (result\<lparr>Alternatives :=
              Some ((case Alternatives result of None \<Rightarrow> [] | Some es \<Rightarrow> es)
                    @ [alt\<lparr>Priority := p\<rparr>])\<rparr>))
   \<and> (wf_field v \<longrightarrow>
        Parse_loop (mkP (key_line ''Value'' v) EOF n) result None = Inr (result\<lparr>Value := v\<rparr>))
   \<and> (slaves_head h \<and> wf_report d1 \<and> input1 @ [LF] = render h d1 \<longrightarrow>
        ParseString input1 = Inr (record_of d1))"
proof -
  have e: "readKeyValue (mkP [] EOF n) = Inl EOF"
    by (simp add: readKeyValue_exhausted)
  show ?thesis
    by (rule conjI [OF final_line_newline conjI [OF final_pair_read
          conjI [OF header_only_no_newline conjI [OF e conjI [OF end_of_stream_normal
          conjI [OF end_of_stream_append conjI [OF final_pair_step
          conjI [OF final_priority_line conjI [OF final_value_line report_no_newline]]]]]]]]])
qed

text \<open>The instances of C9 at the input of the test
  \<^verbatim>\<open>valid input without new line at the end\<close>, at a two-line input, at a last line
  \<^verbatim>\<open>Value: none\<close>, at inputs that end inside an Alternative block (after the Priority line,
  and after the Alternative line), at the exhausted stream with and without an open block,
  and at the input of the test \<^verbatim>\<open>valid input\<close> without its last newline.\<close>

theorem Parse_final_newline_witness:
  "ParseString java_header_text =
     Inr \<lparr>Name = ''java'', Link = ''/usr/bin/java'',
          Slaves = Some [''java.1.gz'' \<mapsto> ''/usr/share/man/man1/java.1.gz''],
          Status = ''auto'',
          Best = ''/usr/lib/jvm/java-21-openjdk-amd64/bin/java'',
          Value = ''/usr/lib/jvm/java-21-openjdk-amd64/bin/java'',
          Alternatives = Some []\<rparr>
   \<and> ParseString (''Name: java\<newline>'' @ ''Link: /usr/bin/java'')
       = ParseString (''Name: java\<newline>'' @ ''Link: /usr/bin/java'' @ [LF])
   \<and> readKeyValue (mkP ''Value: none'' EOF 5) = Inr (''Value'', ''none'', mkP [] EOF 6)
   \<and> ParseString ''Name: x\<newline>\<newline>Alternative: /bin/ed\<newline>Priority: 5''
       = Inr \<lparr>Name = ''x'', Link = [], Slaves = Some Map.empty, Status = [], Best = [],
              Value = [],
              Alternatives = Some [\<lparr>Path = ''/bin/ed'', Priority = 5,
                                     Alternative.Slaves = Some Map.empty\<rparr>]\<rparr>
   \<and> ParseString ''Name: x\<newline>\<newline>Alternative: /bin/ed''
       = Inr \<lparr>Name = ''x'', Link = [], Slaves = Some Map.empty, Status = [], Best = [],
              Value = [],
              Alternatives = Some [\<lparr>Path = ''/bin/ed'', Priority = 0,
                                     Alternative.Slaves = Some Map.empty\<rparr>]\<rparr>
   \<and> ParseString ''Name: x\<newline>Value: none''
       = Inr \<lparr>Name = ''x'', Link = [], Slaves = Some Map.empty, Status = [], Best = [],
              Value = ''none'', Alternatives = Some []\<rparr>
   \<and> Parse_loop (mkP [] EOF 6) newAlternatives (Some newAlternative)
       = Inr (newAlternatives\<lparr>Alternatives := Some [newAlternative]\<rparr>)
   \<and> Parse_loop (mkP [] EOF 6) newAlternatives None = Inr newAlternatives
   \<and> ParseString (butlast java_text) = Inr (record_of java_report)"
proof -
  let ?x = "newAlternatives\<lparr>Name := ''x''\<rparr>"
  let ?ed = "newAlternative\<lparr>Path := ''/bin/ed''\<rparr>"
  have w: "wf_report (java_report\<lparr>rep_alts := []\<rparr>)"
    using wf_java by (simp add: wf_report_def)
  have r: "record_of (java_report\<lparr>rep_alts := []\<rparr>) =
     \<lparr>Name = ''java'', Link = ''/usr/bin/java'',
          Slaves = Some [''java.1.gz'' \<mapsto> ''/usr/share/man/man1/java.1.gz''],
          Status = ''auto'',
          Best = ''/usr/lib/jvm/java-21-openjdk-amd64/bin/java'',
          Value = ''/usr/lib/jvm/java-21-openjdk-amd64/bin/java'',
          Alternatives = Some []\<rparr>"
    by (simp add: record_of_def java_report_def slaves_map_def)
  have h: "slaves_head ''Slaves:''"
    by (simp add: slaves_head_def)
  have k: "CHR '':'' \<notin> set ''Value'' \<and> LF \<notin> set ''Value'' \<and> wf_field ''none''"
    by (simp add: wf_field_def)
  have f: "wf_field ''none''"
    by (simp add: wf_field_def)
  have l: "CHR '':'' \<in> set ''Link: /usr/bin/java'' \<and> LF \<notin> set ''Link: /usr/bin/java''"
    by simp
  have v: "key_line ''Value'' ''none'' = ''Value: none''"
    by (simp add: key_line_def)
  have p: "key_line ''Priority'' (Itoa 5) = ''Priority: 5''"
    by code_simp
  have b: "- (2 ^ 63) \<le> (5 :: int) \<and> (5 :: int) \<le> 2 ^ 63 - 1"
    by simp
  have name: "readKeyValue (mkP (''Name: x'' @ LF # rest) EOF 0) = Inr (''Name'', ''x'', mkP rest EOF 1)"
    if "rest \<noteq> [] \<and> hd rest \<noteq> SP" for rest
    using readKeyValue_key_line [of "''Name''" "''x''" rest EOF 1 0 0] that by simp
  have blank: "readKeyValue (mkP (LF # rest) EOF 1) = readKeyValue (mkP rest EOF 2)" for rest
    using readKeyValue_blanks [of "[[]]" rest EOF 1] by simp
  have skip: "Parse_loop (mkP (LF # rest) EOF 1) res c = Parse_loop (mkP rest EOF 2) res c"
    for rest res c
    by (simp add: Parse_loop.simps [of "mkP (LF # rest) EOF 1"]
        Parse_loop.simps [of "mkP rest EOF 2"] blank)
  have alt1: "readKeyValue (mkP ''Alternative: /bin/ed\<newline>Priority: 5'' EOF 2)
      = Inr (''Alternative'', ''/bin/ed'', mkP ''Priority: 5'' EOF 3)"
    using readKeyValue_key_line [of "''Alternative''" "''/bin/ed''" "''Priority: 5''" EOF 1 0 2]
    by simp
  have alt2: "readKeyValue (mkP ''Alternative: /bin/ed'' EOF 2)
      = Inr (''Alternative'', ''/bin/ed'', mkP [] EOF 3)"
    using readKeyValue_key_line_last [of "''Alternative''" "''/bin/ed''" 1 0 2] by simp
  have eof: "readKeyValue (mkP [] EOF m) = Inl EOF" for m
    by (simp add: readKeyValue_exhausted)
  note th = Parse_final_newline
    [where l = "''Link: /usr/bin/java''" and s = "''Name: java\<newline>''" and k = "''Value''"
       and v = "''none''" and n = 5 and h = "''Slaves:''"
       and d = "java_report\<lparr>rep_alts := []\<rparr>" and input = java_header_text
       and ?d1.0 = java_report and ?input1.0 = "butlast java_text"]
  have 1: "ParseString (''Name: java\<newline>'' @ ''Link: /usr/bin/java'')
       = ParseString (''Name: java\<newline>'' @ ''Link: /usr/bin/java'' @ [LF])"
    by (rule th [THEN conjunct1, THEN mp, OF l])
  have "readKeyValue (mkP (key_line ''Value'' ''none'') EOF 5)
      = Inr (''Value'', ''none'', mkP [] EOF (5 + 1))"
    by (rule th [THEN conjunct2, THEN conjunct1, THEN mp, OF k])
  then have 2: "readKeyValue (mkP ''Value: none'' EOF 5) = Inr (''Value'', ''none'', mkP [] EOF 6)"
    by (simp add: v)
  have a: "rep_alts (java_report\<lparr>rep_alts := []\<rparr>) = []"
    by simp
  have "ParseString java_header_text = Inr (record_of (java_report\<lparr>rep_alts := []\<rparr>))"
    by (rule th [THEN conjunct2, THEN conjunct2, THEN conjunct1, THEN mp, THEN conjunct1])
      (intro conjI h w a render_java_header [symmetric])
  then have 3: "ParseString java_header_text =
     Inr \<lparr>Name = ''java'', Link = ''/usr/bin/java'',
          Slaves = Some [''java.1.gz'' \<mapsto> ''/usr/share/man/man1/java.1.gz''],
          Status = ''auto'',
          Best = ''/usr/lib/jvm/java-21-openjdk-amd64/bin/java'',
          Value = ''/usr/lib/jvm/java-21-openjdk-amd64/bin/java'',
          Alternatives = Some []\<rparr>"
    by (simp only: r)
  have i: "butlast java_text @ [LF] = render ''Slaves:'' java_report"
    by (simp only: java_text_last render_java)
  have 9: "ParseString (butlast java_text) = Inr (record_of java_report)"
    by (rule th [THEN conjunct2, THEN conjunct2, THEN conjunct2, THEN conjunct2, THEN conjunct2,
          THEN conjunct2, THEN conjunct2, THEN conjunct2, THEN conjunct2, THEN mp])
      (intro conjI h wf_java i)
  note fin = Parse_final_newline
    [where r = "mkP [] EOF 6" and result = newAlternatives and alt = newAlternative,
     THEN conjunct2, THEN conjunct2, THEN conjunct2, THEN conjunct2, THEN conjunct2,
     THEN conjunct1, THEN mp, OF eof]
  have 7: "Parse_loop (mkP [] EOF 6) newAlternatives (Some newAlternative)
       = Inr (newAlternatives\<lparr>Alternatives := Some [newAlternative]\<rparr>)"
    using fin [THEN conjunct2] by (simp add: newAlternatives_def)
  have 8: "Parse_loop (mkP [] EOF 6) newAlternatives None = Inr newAlternatives"
    by (rule fin [THEN conjunct1])
  have "Parse_loop (mkP (key_line ''Priority'' (Itoa 5)) EOF 3) ?x (Some ?ed)
      = Inr (?x\<lparr>Alternatives :=
              Some ((case Alternatives ?x of None \<Rightarrow> [] | Some es \<Rightarrow> es)
                    @ [?ed\<lparr>Priority := 5\<rparr>])\<rparr>)"
    by (rule Parse_final_newline [where p = 5 and n = 3 and result = ?x and alt = ?ed,
          THEN conjunct2, THEN conjunct2, THEN conjunct2, THEN conjunct2, THEN conjunct2,
          THEN conjunct2, THEN conjunct2, THEN conjunct1, THEN mp, OF b])
  then have pr: "Parse_loop (mkP ''Priority: 5'' EOF 3) ?x (Some ?ed)
      = Inr \<lparr>Name = ''x'', Link = [], Slaves = Some Map.empty, Status = [], Best = [],
              Value = [],
              Alternatives = Some [\<lparr>Path = ''/bin/ed'', Priority = 5,
                                     Alternative.Slaves = Some Map.empty\<rparr>]\<rparr>"
    by (simp add: p newAlternatives_def newAlternative_def)
  have 4: "ParseString ''Name: x\<newline>\<newline>Alternative: /bin/ed\<newline>Priority: 5''
       = Inr \<lparr>Name = ''x'', Link = [], Slaves = Some Map.empty, Status = [], Best = [],
              Value = [],
              Alternatives = Some [\<lparr>Path = ''/bin/ed'', Priority = 5,
                                     Alternative.Slaves = Some Map.empty\<rparr>]\<rparr>"
    using name [of "''\<newline>Alternative: /bin/ed\<newline>Priority: 5''"]
    by (simp add: ParseString_eq Parse_loop_pair Parse_step_def skip
        Parse_loop_pair [OF alt1] pr)
  have st: "Parse_step (mkP [] EOF 3) ''Alternative'' ''/bin/ed'' ?x None = Inr (?x, Some ?ed)"
    by (simp add: Parse_step_def)
  have "Parse_loop (mkP ''Alternative: /bin/ed'' EOF 2) ?x None
      = Inr (case Some ?ed of
               None \<Rightarrow> ?x
             | Some a \<Rightarrow> ?x\<lparr>Alternatives :=
                 Some ((case Alternatives ?x of None \<Rightarrow> [] | Some es \<Rightarrow> es) @ [a])\<rparr>)"
    by (rule Parse_final_newline [where ?r1.0 = "mkP ''Alternative: /bin/ed'' EOF 2"
          and ?k1.0 = "''Alternative''" and ?v1.0 = "''/bin/ed''" and ?r2.0 = "mkP [] EOF 3"
          and result = ?x and cur = None and result' = ?x and cur' = "Some ?ed",
          THEN conjunct2, THEN conjunct2, THEN conjunct2, THEN conjunct2, THEN conjunct2,
          THEN conjunct2, THEN conjunct1, THEN mp])
      (intro conjI alt2 eof st)
  then have al: "Parse_loop (mkP ''Alternative: /bin/ed'' EOF 2) ?x None
      = Inr \<lparr>Name = ''x'', Link = [], Slaves = Some Map.empty, Status = [], Best = [],
              Value = [],
              Alternatives = Some [\<lparr>Path = ''/bin/ed'', Priority = 0,
                                     Alternative.Slaves = Some Map.empty\<rparr>]\<rparr>"
    by (simp add: newAlternatives_def newAlternative_def)
  have 5: "ParseString ''Name: x\<newline>\<newline>Alternative: /bin/ed''
       = Inr \<lparr>Name = ''x'', Link = [], Slaves = Some Map.empty, Status = [], Best = [],
              Value = [],
              Alternatives = Some [\<lparr>Path = ''/bin/ed'', Priority = 0,
                                     Alternative.Slaves = Some Map.empty\<rparr>]\<rparr>"
    using name [of "''\<newline>Alternative: /bin/ed''"]
    by (simp add: ParseString_eq Parse_loop_pair Parse_step_def skip al)
  have "Parse_loop (mkP (key_line ''Value'' ''none'') EOF 1) ?x None = Inr (?x\<lparr>Value := ''none''\<rparr>)"
    by (rule Parse_final_newline [where v = "''none''" and n = 1 and result = ?x,
          THEN conjunct2, THEN conjunct2, THEN conjunct2, THEN conjunct2, THEN conjunct2,
          THEN conjunct2, THEN conjunct2, THEN conjunct2, THEN conjunct1, THEN mp, OF f])
  then have va: "Parse_loop (mkP ''Value: none'' EOF 1) ?x None
      = Inr \<lparr>Name = ''x'', Link = [], Slaves = Some Map.empty, Status = [], Best = [],
              Value = ''none'', Alternatives = Some []\<rparr>"
    by (simp add: v newAlternatives_def)
  have 6: "ParseString ''Name: x\<newline>Value: none''
       = Inr \<lparr>Name = ''x'', Link = [], Slaves = Some Map.empty, Status = [], Best = [],
              Value = ''none'', Alternatives = Some []\<rparr>"
    using name [of "''Value: none''"]
    by (simp add: ParseString_eq Parse_loop_pair Parse_step_def va)
  from 3 1 2 4 5 6 7 8 9 show ?thesis
    by (intro conjI)
qed

end
